theory Spec2Isabelle
  imports Complex_Main "HOL-Library.Stream" "HOL-Library.Word" "HOL-Library.Sublist"
begin

section \<open>JavaScript values used by the generator\<close>

text \<open>
  Strings are HOL strings. The generator only ever builds and inspects ASCII text (country
  codes, digits, upper-case letters, messages), so a \<^typ>\<open>char\<close> stands for one ASCII
  code unit; case mapping and white space beyond ASCII are outside this model.
  Numbers that the code uses as integers are \<^typ>\<open>int\<close> or \<^typ>\<open>nat\<close>; a \<open>BigInt\<close> is
  an \<^typ>\<open>int\<close>.
\<close>

datatype error =
    IBANGenerationError string "string option"
  | Error string

fun message :: "error \<Rightarrow> string" where
  "message (IBANGenerationError m c) = m"
| "message (Error m) = m"

definition charCodeAt0 :: "char \<Rightarrow> nat" where
  "charCodeAt0 c = of_char c"

definition fromCharCode :: "nat \<Rightarrow> char" where
  "fromCharCode n = char_of n"

definition isDigit :: "char \<Rightarrow> bool" where
  "isDigit c = (48 \<le> charCodeAt0 c \<and> charCodeAt0 c \<le> 57)"

definition isUpper :: "char \<Rightarrow> bool" where
  "isUpper c = (65 \<le> charCodeAt0 c \<and> charCodeAt0 c \<le> 90)"

definition isLower :: "char \<Rightarrow> bool" where
  "isLower c = (97 \<le> charCodeAt0 c \<and> charCodeAt0 c \<le> 122)"

definition toUpperCase_char :: "char \<Rightarrow> char" where
  "toUpperCase_char c = (if isLower c then fromCharCode (charCodeAt0 c - 32) else c)"

definition toUpperCase :: "string \<Rightarrow> string" where
  "toUpperCase s = map toUpperCase_char s"

definition isWhiteSpace :: "char \<Rightarrow> bool" where
  "isWhiteSpace c = (charCodeAt0 c = 32 \<or> (9 \<le> charCodeAt0 c \<and> charCodeAt0 c \<le> 13))"

definition trim :: "string \<Rightarrow> string" where
  "trim s = rev (dropWhile isWhiteSpace (rev (dropWhile isWhiteSpace s)))"

text \<open>\<open>Number.prototype.toString()\<close> on an integer: decimal digits, a minus sign below zero.\<close>

fun digits_of_nat :: "nat \<Rightarrow> string" where
  "digits_of_nat n =
     (if n < 10 then [fromCharCode (48 + n)]
      else digits_of_nat (n div 10) @ [fromCharCode (48 + n mod 10)])"

declare digits_of_nat.simps [simp del]

definition toString :: "int \<Rightarrow> string" where
  "toString i = (if i < 0 then CHR ''-'' # digits_of_nat (nat (- i)) else digits_of_nat (nat i))"

definition padStart :: "nat \<Rightarrow> char \<Rightarrow> string \<Rightarrow> string" where
  "padStart n c s = replicate (n - length s) c @ s"

text \<open>The value of a string of decimal digits, as \<open>BigInt(s)\<close> reads it.\<close>

definition decimal_value :: "string \<Rightarrow> int" where
  "decimal_value s = foldl (\<lambda>acc c. acc * 10 + (int (charCodeAt0 c) - 48)) 0 s"

text \<open>The remainder operator \<open>%\<close>: the result takes the sign of the dividend.\<close>

definition js_rem :: "int \<Rightarrow> int \<Rightarrow> int" where
  "js_rem a b = sgn a * (\<bar>a\<bar> mod \<bar>b\<bar>)"

section \<open>The checksum engine\<close>

definition charToNumber :: "char \<Rightarrow> error + string" where
  "charToNumber char =
     (let code = charCodeAt0 char in
      if code \<ge> 48 \<and> code \<le> 57 then Inr [char]
      else if code \<ge> 65 \<and> code \<le> 90 then Inr (toString (int code - 55))
      else Inl (IBANGenerationError
                  (''Invalid character '' @ [CHR 39, char, CHR 39] @ '' in IBAN calculation'') None))"

text \<open>The loop of step 2: \<open>numericString += charToNumber(char.toUpperCase())\<close>.\<close>

fun numericString_loop :: "string \<Rightarrow> string \<Rightarrow> error + string" where
  "numericString_loop numericString [] = Inr numericString"
| "numericString_loop numericString (char # rest) =
     (case charToNumber (toUpperCase_char char) of
        Inl e \<Rightarrow> Inl e
      | Inr t \<Rightarrow> numericString_loop (numericString @ t) rest)"

text \<open>
  \<open>BigInt(numericString)\<close> is only reached with the digits the loop has produced (lemma
  \<open>numericString_loop_digits\<close> below), where it is the decimal value. An error of the
  \<open>try\<close> block is rethrown with the prefix of the \<open>catch\<close> clause and the country code.
\<close>

definition calculateCheckDigits :: "string \<Rightarrow> string \<Rightarrow> string \<Rightarrow> error + string" where
  "calculateCheckDigits countryCode bankCode accountNumber =
     (let rearranged = bankCode @ accountNumber @ countryCode @ ''00'' in
      case numericString_loop [] rearranged of
        Inl error \<Rightarrow>
          Inl (IBANGenerationError (''Failed to calculate check digits: '' @ message error)
                 (Some countryCode))
      | Inr numericString \<Rightarrow>
          (let remainder = js_rem (decimal_value numericString) 97;
               checkDigits = 98 - remainder
           in Inr (padStart 2 (CHR ''0'') (toString checkDigits))))"

section \<open>The country registry\<close>

datatype IBANCountryCode = NL | DE | FR | GB | ES | IT | BE | CH | AT | DK

text \<open>The string that each member of the literal type is at run time.\<close>

fun key :: "IBANCountryCode \<Rightarrow> string" where
  "key NL = ''NL''" | "key DE = ''DE''" | "key FR = ''FR''" | "key GB = ''GB''"
| "key ES = ''ES''" | "key IT = ''IT''" | "key BE = ''BE''" | "key CH = ''CH''"
| "key AT = ''AT''" | "key DK = ''DK''"

record IBANCountryConfig =
  name :: string
  length' :: int
  format :: string
  bankCodeLength :: int
  accountNumberLength :: int
  sampleBankCodes :: "string list"

fun countries :: "IBANCountryCode \<Rightarrow> IBANCountryConfig" where
  "countries NL = \<lparr>name = ''Netherlands'', length' = 18, format = ''NL2!n4!a10!n'',
     bankCodeLength = 4, accountNumberLength = 10,
     sampleBankCodes = [''ABNA'', ''INGB'', ''RABO'', ''TRIO'']\<rparr>"
| "countries DE = \<lparr>name = ''Germany'', length' = 22, format = ''DE2!n8!n10!n'',
     bankCodeLength = 8, accountNumberLength = 10,
     sampleBankCodes = [''10010010'', ''20070024'', ''37040044'', ''50010517'']\<rparr>"
| "countries FR = \<lparr>name = ''France'', length' = 27, format = ''FR2!n5!n5!n11!c2!n'',
     bankCodeLength = 10, accountNumberLength = 13,
     sampleBankCodes = [''2004100005'', ''3000200009'', ''1027800002'', ''2004100005'']\<rparr>"
| "countries GB = \<lparr>name = ''United Kingdom'', length' = 22, format = ''GB2!n4!a6!n8!n'',
     bankCodeLength = 10, accountNumberLength = 8,
     sampleBankCodes = [''ABBY060001'', ''BARC200000'', ''HBUK400003'', ''LOYD309634'']\<rparr>"
| "countries ES = \<lparr>name = ''Spain'', length' = 24, format = ''ES2!n4!n4!n1!n1!n10!n'',
     bankCodeLength = 8, accountNumberLength = 12,
     sampleBankCodes = [''21000418'', ''00720301'', ''01820200'', ''21000001'']\<rparr>"
| "countries IT = \<lparr>name = ''Italy'', length' = 27, format = ''IT2!n1!a5!n5!n12!c'',
     bankCodeLength = 11, accountNumberLength = 12,
     sampleBankCodes = [''X0542811101'', ''A0306901691'', ''U0301503200'', ''C0301503400'']\<rparr>"
| "countries BE = \<lparr>name = ''Belgium'', length' = 16, format = ''BE2!n3!n7!n2!n'',
     bankCodeLength = 3, accountNumberLength = 9,
     sampleBankCodes = [''539'', ''096'', ''001'', ''068'']\<rparr>"
| "countries CH = \<lparr>name = ''Switzerland'', length' = 21, format = ''CH2!n5!n12!c'',
     bankCodeLength = 5, accountNumberLength = 12,
     sampleBankCodes = [''00762'', ''08390'', ''00230'', ''00254'']\<rparr>"
| "countries AT = \<lparr>name = ''Austria'', length' = 20, format = ''AT2!n5!n11!n'',
     bankCodeLength = 5, accountNumberLength = 11,
     sampleBankCodes = [''19043'', ''32000'', ''20111'', ''14000'']\<rparr>"
| "countries DK = \<lparr>name = ''Denmark'', length' = 18, format = ''DK2!n4!n9!n1!n'',
     bankCodeLength = 4, accountNumberLength = 10,
     sampleBankCodes = [''0040'', ''5301'', ''9570'', ''7311'']\<rparr>"

text \<open>\<open>Object.keys(countries)\<close>: the own keys, in insertion order.\<close>

definition Object_keys_countries :: "IBANCountryCode list" where
  "Object_keys_countries = [NL, DE, FR, GB, ES, IT, BE, CH, AT, DK]"

text \<open>
  The object literal inherits from \<open>Object.prototype\<close>, and the operator \<open>in\<close> also finds
  inherited properties; these are the names the language standard puts there.
\<close>

definition Object_prototype_names :: "string list" where
  "Object_prototype_names =
     [''constructor'', ''hasOwnProperty'', ''isPrototypeOf'', ''propertyIsEnumerable'',
      ''toLocaleString'', ''toString'', ''valueOf'', ''__proto__'',
      ''__defineGetter__'', ''__defineSetter__'', ''__lookupGetter__'', ''__lookupSetter__'']"

definition isValidCountryCode :: "string \<Rightarrow> bool" where
  "isValidCountryCode countryCode =
     (countryCode \<in> set (map key Object_keys_countries) \<or>
      countryCode \<in> set Object_prototype_names)"

text \<open>
  Joining strings with a separator, as \<open>Array.prototype.join\<close> does.
\<close>

fun join :: "string \<Rightarrow> string list \<Rightarrow> string" where
  "join sep [] = []"
| "join sep [x] = x"
| "join sep (x # y # ys) = x @ sep @ join sep (y # ys)"

text \<open>
  The argument is a string, so of the three tests of \<open>validateCountryCode\<close> the one on
  \<open>typeof countryCode\<close> cannot fail; the empty string is the only falsy string.
\<close>

definition validateCountryCode :: "string \<Rightarrow> error + unit" where
  "validateCountryCode countryCode =
     (if countryCode = [] then Inl (IBANGenerationError ''Country code is required'' None)
      else if \<not> isValidCountryCode (toUpperCase countryCode) then
        Inl (IBANGenerationError
               (''Country code '' @ [CHR 39] @ countryCode @ [CHR 39] @
                '' is not supported. Supported codes: '' @
                join '', '' (map key Object_keys_countries))
               (Some countryCode))
      else Inr ())"

text \<open>
  A string that has passed \<open>validateCountryCode\<close> is used at the type \<open>IBANCountryCode\<close>.
  \<open>None\<close> is a string that is no key of the table, for which \<open>countries[countryCode]\<close>
  is \<open>undefined\<close>.
\<close>

definition as_IBANCountryCode :: "string \<Rightarrow> IBANCountryCode option" where
  "as_IBANCountryCode s = find (\<lambda>c. key c = s) Object_keys_countries"

section \<open>Secure random primitives\<close>

text \<open>
  The entropy source is the stream of bytes that successive calls of
  \<open>crypto.getRandomValues\<close> deliver. A computation takes the stream and returns its result
  (or the error it throws) with the rest of the stream; \<open>None\<close> is a computation that
  never returns.
\<close>

type_synonym byte_stream = "8 word stream"

type_synonym 'a comp = "byte_stream \<Rightarrow> ((error + 'a) \<times> byte_stream) option"

definition return :: "'a \<Rightarrow> 'a comp" where
  "return x ent = Some (Inr x, ent)"

definition throw :: "error \<Rightarrow> 'a comp" where
  "throw e ent = Some (Inl e, ent)"

definition bind :: "'a comp \<Rightarrow> ('a \<Rightarrow> 'b comp) \<Rightarrow> 'b comp" where
  "bind m f ent =
     (case m ent of
        None \<Rightarrow> None
      | Some (Inl e, ent') \<Rightarrow> Some (Inl e, ent')
      | Some (Inr x, ent') \<Rightarrow> f x ent')"

text \<open>
  \<open>Math.ceil(Math.log2(range) / 8)\<close> for an integer \<open>range \<ge> 1\<close>, computed on integers:
  the least number of bytes whose value space holds \<open>range\<close> values (lemma
  \<open>bytesNeeded_log2\<close> below relates it to the logarithm).
\<close>

fun ceil_log256 :: "nat \<Rightarrow> nat" where
  "ceil_log256 n = (if n \<le> 1 then 0 else Suc (ceil_log256 ((n + 255) div 256)))"

declare ceil_log256.simps [simp del]

text \<open>\<open>randomBytes.reduce((sum, byte, index) => sum + byte * (256 ** index), 0)\<close>\<close>

definition reduce_bytes :: "8 word list \<Rightarrow> nat" where
  "reduce_bytes randomBytes =
     foldl (\<lambda>sum (byte, index). sum + unat byte * 256 ^ index) 0
       (zip randomBytes [0..<length randomBytes])"

text \<open>The \<open>do ... while (randomValue > maxValidValue)\<close> loop.\<close>

partial_function (option) draw_loop :: "nat \<Rightarrow> int \<Rightarrow> byte_stream \<Rightarrow> (nat \<times> byte_stream) option"
where
  "draw_loop bytesNeeded maxValidValue ent =
     (if int (reduce_bytes (stake bytesNeeded ent)) > maxValidValue
      then draw_loop bytesNeeded maxValidValue (sdrop bytesNeeded ent)
      else Some (reduce_bytes (stake bytesNeeded ent), sdrop bytesNeeded ent))"

declare draw_loop.simps [code]

definition getSecureRandomInt :: "int \<Rightarrow> int \<Rightarrow> int comp" where
  "getSecureRandomInt min' max' ent =
     (if min' > max' then
        Some (Inl (Error ''Minimum value cannot be greater than maximum value''), ent)
      else
        let range = max' - min' + 1;
            bytesNeeded = ceil_log256 (nat range);
            maxValidValue = (256 ^ bytesNeeded div range) * range - 1
        in case draw_loop bytesNeeded maxValidValue ent of
             None \<Rightarrow> None
           | Some (randomValue, ent') \<Rightarrow> Some (Inr (min' + js_rem (int randomValue) range), ent'))"

primrec numeric_loop :: "nat \<Rightarrow> string \<Rightarrow> string comp" where
  "numeric_loop 0 result = return result"
| "numeric_loop (Suc n) result =
     bind (getSecureRandomInt 0 9) (\<lambda>d. numeric_loop n (result @ toString d))"

definition generateRandomNumericString :: "int \<Rightarrow> string comp" where
  "generateRandomNumericString len =
     (if len \<le> 0 then return '''' else numeric_loop (nat len) '''')"

definition chars :: string where
  "chars = ''ABCDEFGHIJKLMNOPQRSTUVWXYZ0123456789''"

text \<open>Indexing a string or an array: \<open>undefined\<close> out of range, which concatenates as text.\<close>

definition char_at :: "string \<Rightarrow> int \<Rightarrow> string" where
  "char_at s i = (if 0 \<le> i \<and> i < int (length s) then [s ! nat i] else ''undefined'')"

definition element_at :: "string list \<Rightarrow> int \<Rightarrow> string" where
  "element_at xs i = (if 0 \<le> i \<and> i < int (length xs) then xs ! nat i else ''undefined'')"

primrec alphanumeric_loop :: "nat \<Rightarrow> string \<Rightarrow> string comp" where
  "alphanumeric_loop 0 result = return result"
| "alphanumeric_loop (Suc n) result =
     bind (getSecureRandomInt 0 (int (length chars) - 1))
       (\<lambda>i. alphanumeric_loop n (result @ char_at chars i))"

definition generateRandomAlphanumericString :: "int \<Rightarrow> string comp" where
  "generateRandomAlphanumericString len =
     (if len \<le> 0 then return '''' else alphanumeric_loop (nat len) '''')"

section \<open>Component generators\<close>

text \<open>\<open>String.fromCharCode(65 + getSecureRandomInt(0, 25))\<close>\<close>

definition random_letter :: "string comp" where
  "random_letter = bind (getSecureRandomInt 0 25) (\<lambda>k. return [fromCharCode (nat (65 + k))])"

text \<open>\<open>.replace(/\d/g, () => ...)\<close>: every digit, from left to right, becomes a fresh letter.\<close>

primrec replace_digits :: "string \<Rightarrow> string comp" where
  "replace_digits [] = return []"
| "replace_digits (ch # rest) =
     (if isDigit ch
      then bind random_letter (\<lambda>l. bind (replace_digits rest) (\<lambda>r. return (l @ r)))
      else bind (replace_digits rest) (\<lambda>r. return (ch # r)))"

definition generateBankCode :: "IBANCountryCode \<Rightarrow> string comp" where
  "generateBankCode countryCode =
     (let config = countries countryCode;
          sampleCodes = sampleBankCodes config
      in if length sampleCodes > 0 then
           bind (getSecureRandomInt 0 (int (length sampleCodes) - 1))
             (\<lambda>randomIndex. return (element_at sampleCodes randomIndex))
         else (case countryCode of
             NL \<Rightarrow> bind (generateRandomAlphanumericString 4) replace_digits
           | FR \<Rightarrow> bind (generateRandomNumericString 5) (\<lambda>a.
                   bind (generateRandomNumericString 5) (\<lambda>b. return (a @ b)))
           | GB \<Rightarrow> bind (bind (generateRandomAlphanumericString 4) replace_digits) (\<lambda>a.
                   bind (generateRandomNumericString 6) (\<lambda>b. return (a @ b)))
           | IT \<Rightarrow> bind random_letter (\<lambda>l.
                   bind (generateRandomNumericString 5) (\<lambda>a.
                   bind (generateRandomNumericString 5) (\<lambda>b. return (l @ a @ b))))
           | _ \<Rightarrow> generateRandomNumericString (bankCodeLength config)))"

definition generateAccountNumber :: "IBANCountryCode \<Rightarrow> string comp" where
  "generateAccountNumber countryCode =
     (let config = countries countryCode;
          len = accountNumberLength config
      in case countryCode of
           FR \<Rightarrow> bind (generateRandomAlphanumericString 11) (\<lambda>a.
                   bind (generateRandomNumericString 2) (\<lambda>b. return (a @ b)))
         | IT \<Rightarrow> generateRandomAlphanumericString 12
         | CH \<Rightarrow> generateRandomAlphanumericString 12
         | _ \<Rightarrow> generateRandomNumericString len)"

section \<open>The generation orchestrator\<close>

text \<open>\<open>/^\d{2}$/.test(checkDigits)\<close>: exactly two characters, both decimal digits.\<close>

definition two_digits :: "string \<Rightarrow> bool" where
  "two_digits s = (length s = 2 \<and> list_all isDigit s)"

definition startsWith :: "string \<Rightarrow> string \<Rightarrow> bool" where
  "startsWith s p = (take (length p) s = p)"

definition substring :: "string \<Rightarrow> nat \<Rightarrow> nat \<Rightarrow> string" where
  "substring s i j = take (j - i) (drop i s)"

definition validateGeneratedIBAN :: "string \<Rightarrow> IBANCountryCode \<Rightarrow> error + unit" where
  "validateGeneratedIBAN iban countryCode =
     (let config = countries countryCode in
      if int (length iban) \<noteq> length' config then
        Inl (IBANGenerationError
               (''Generated IBAN has incorrect length. Expected '' @ toString (length' config) @
                '', got '' @ toString (int (length iban)))
               (Some (key countryCode)))
      else if \<not> startsWith iban (key countryCode) then
        Inl (IBANGenerationError
               (''Generated IBAN does not start with country code '' @ key countryCode)
               (Some (key countryCode)))
      else
        let checkDigits = substring iban 2 4 in
        if \<not> two_digits checkDigits then
          Inl (IBANGenerationError (''Invalid check digits: '' @ checkDigits)
                 (Some (key countryCode)))
        else Inr ())"

text \<open>
  The state of one call: the entropy stream, and a counter of the entries into
  \<open>calculateCheckDigits\<close>, kept only to state which calls reach the checksum engine.
\<close>

record world =
  entropy :: byte_stream
  checksumCalls :: nat

text \<open>
  The body of the \<open>try\<close> block. For a string that is no key of the table the first
  statement reads a property of \<open>undefined\<close> and throws a \<open>TypeError\<close>; no call of
  \<open>generateIBAN\<close> takes that branch (lemma \<open>validated_is_key\<close> below).
\<close>

definition generateIBAN_try ::
  "string \<Rightarrow> world \<Rightarrow> ((error + string) \<times> world) option" where
  "generateIBAN_try normalizedCountryCode w =
     (case as_IBANCountryCode normalizedCountryCode of
        None \<Rightarrow>
          Some (Inl (Error (''Cannot read properties of undefined (reading '' @ [CHR 39] @
                            ''sampleBankCodes'' @ [CHR 39] @ '')'')), w)
      | Some c \<Rightarrow>
         (case generateBankCode c (entropy w) of
            None \<Rightarrow> None
          | Some (Inl e, ent1) \<Rightarrow> Some (Inl e, w\<lparr>entropy := ent1\<rparr>)
          | Some (Inr bankCode, ent1) \<Rightarrow>
             (case generateAccountNumber c ent1 of
                None \<Rightarrow> None
              | Some (Inl e, ent2) \<Rightarrow> Some (Inl e, w\<lparr>entropy := ent2\<rparr>)
              | Some (Inr accountNumber, ent2) \<Rightarrow>
                 (let w2 = \<lparr>entropy = ent2, checksumCalls = checksumCalls w + 1\<rparr> in
                  case calculateCheckDigits normalizedCountryCode bankCode accountNumber of
                    Inl e \<Rightarrow> Some (Inl e, w2)
                  | Inr checkDigits \<Rightarrow>
                     (let iban = normalizedCountryCode @ checkDigits @ bankCode @ accountNumber in
                      case validateGeneratedIBAN iban c of
                        Inl e \<Rightarrow> Some (Inl e, w2)
                      | Inr _ \<Rightarrow> Some (Inr iban, w2))))))"

text \<open>The \<open>catch\<close> clause: an \<open>IBANGenerationError\<close> is rethrown, anything else is wrapped.\<close>

fun rethrow :: "string \<Rightarrow> error \<Rightarrow> error" where
  "rethrow normalizedCountryCode (IBANGenerationError m c) = IBANGenerationError m c"
| "rethrow normalizedCountryCode (Error m) =
     IBANGenerationError (''Unexpected error during IBAN generation: '' @ m)
       (Some normalizedCountryCode)"

definition generateIBAN :: "string \<Rightarrow> world \<Rightarrow> ((error + string) \<times> world) option" where
  "generateIBAN countryCode w =
     (let normalizedCountryCode = trim (toUpperCase countryCode) in
      case validateCountryCode normalizedCountryCode of
        Inl e \<Rightarrow> Some (Inl e, w)
      | Inr _ \<Rightarrow>
         (case generateIBAN_try normalizedCountryCode w of
            None \<Rightarrow> None
          | Some (Inl e, w') \<Rightarrow> Some (Inl (rethrow normalizedCountryCode e), w')
          | Some (Inr iban, w') \<Rightarrow> Some (Inr iban, w')))"

section \<open>The earlier checksum implementation\<close>

text \<open>
  \<open>rearranged.replace(/[A-Z]/g, (char) => (char.charCodeAt(0) - 55).toString())\<close>: the
  upper-case letters are replaced, every other character stays.
\<close>

definition legacy_replace_letters :: "string \<Rightarrow> string" where
  "legacy_replace_letters s =
     concat (map (\<lambda>char. if isUpper char then toString (int (charCodeAt0 char) - 55) else [char]) s)"

text \<open>
  \<open>BigInt(numericString)\<close> is the decimal value of a non-empty string of digits. What it
  does with any other text (white space, a sign, a radix prefix, a syntax error) is the
  parameter \<open>other\<close>.
\<close>

definition BigInt :: "(string \<Rightarrow> error + int) \<Rightarrow> string \<Rightarrow> error + int" where
  "BigInt other s = (if s \<noteq> [] \<and> list_all isDigit s then Inr (decimal_value s) else other s)"

definition legacy_calculateCheckDigits ::
  "(string \<Rightarrow> error + int) \<Rightarrow> string \<Rightarrow> string \<Rightarrow> string \<Rightarrow> error + string" where
  "legacy_calculateCheckDigits other countryCode bankCode accountNumber =
     (let rearranged = bankCode @ accountNumber @ countryCode @ ''00'';
          numericString = legacy_replace_letters rearranged
      in case BigInt other numericString of
           Inl e \<Rightarrow> Inl e
         | Inr n \<Rightarrow>
            (let remainder = js_rem n 97;
                 checkDigits = 98 - remainder
             in Inr (padStart 2 (CHR ''0'') (toString checkDigits))))"

section \<open>Notions used to state the properties\<close>

text \<open>The alphabet \<open>[0-9A-Z]\<close> of the probe string.\<close>

definition alnum :: "char \<Rightarrow> bool" where
  "alnum c = (isDigit c \<or> isUpper c)"

text \<open>
  The transliteration of ISO 7064 as used for IBANs: a digit stands for itself, a letter
  \<open>A\<close> to \<open>Z\<close> for the decimal numeral of 10 to 35.
\<close>

definition token :: "char \<Rightarrow> string" where
  "token c = (if isDigit c then [c] else toString (int (charCodeAt0 c) - 55))"

definition transliterate :: "string \<Rightarrow> string" where
  "transliterate s = concat (map token s)"

text \<open>
  The mod-97 test of a candidate IBAN: its first four characters moved to the end, the
  result transliterated and read as a decimal numeral, the remainder modulo 97 equal to 1.
\<close>

definition mod97_valid :: "string \<Rightarrow> bool" where
  "mod97_valid iban =
     (list_all alnum iban \<and>
      decimal_value (transliterate (drop 4 iban @ take 4 iban)) mod 97 = 1)"

text \<open>
  Modelled from the spec: \<open>validateIBAN\<close> is not part of the source. The specification
  describes it as deriving the check digits again from the body of the candidate (steps 1
  to 5 of the checksum engine) and comparing them with the embedded ones.
\<close>

definition validateIBAN :: "string \<Rightarrow> bool" where
  "validateIBAN iban =
     (calculateCheckDigits (take 2 iban) (drop 4 iban) [] = Inr (substring iban 2 4))"

text \<open>
  The quantities of one call \<open>getSecureRandomInt(min, max)\<close> with \<open>min \<le> max\<close>: the number
  of bytes of a draw, the largest accepted value, the bytes of the \<open>k\<close>-th draw of the
  loop, whether the loop accepts a draw, and the result it returns for an accepted draw.
\<close>

definition bytesNeeded :: "int \<Rightarrow> int \<Rightarrow> nat" where
  "bytesNeeded min' max' = ceil_log256 (nat (max' - min' + 1))"

definition maxValidValue :: "int \<Rightarrow> int \<Rightarrow> int" where
  "maxValidValue min' max' =
     (256 ^ bytesNeeded min' max' div (max' - min' + 1)) * (max' - min' + 1) - 1"

definition draw :: "nat \<Rightarrow> byte_stream \<Rightarrow> nat \<Rightarrow> 8 word list" where
  "draw b ent k = stake b (sdrop (k * b) ent)"

definition accepted :: "int \<Rightarrow> int \<Rightarrow> 8 word list \<Rightarrow> bool" where
  "accepted min' max' randomBytes = (int (reduce_bytes randomBytes) \<le> maxValidValue min' max')"

definition result_of :: "int \<Rightarrow> int \<Rightarrow> 8 word list \<Rightarrow> int" where
  "result_of min' max' randomBytes =
     min' + js_rem (int (reduce_bytes randomBytes)) (max' - min' + 1)"

text \<open>
  A computation satisfies \<open>post m P\<close> when it never throws and each result it returns
  satisfies \<open>P\<close>.
\<close>

definition post :: "'a comp \<Rightarrow> ('a \<Rightarrow> bool) \<Rightarrow> bool" where
  "post m P = (\<forall>ent r ent'. m ent = Some (r, ent') \<longrightarrow> (\<exists>x. r = Inr x \<and> P x))"

text \<open>
  An entropy stream is fair when it delivers a byte of at most 249 again and again. Every
  loop of the generator accepts such a byte (its largest accepted values are 249, 251 and
  255).
\<close>

definition fair :: "byte_stream \<Rightarrow> bool" where
  "fair ent = (\<forall>n. \<exists>m. n \<le> m \<and> unat (ent !! m) \<le> 249)"

text \<open>A computation is total when on a fair stream it returns a value and leaves a fair stream.\<close>

definition total :: "'a comp \<Rightarrow> bool" where
  "total m = (\<forall>ent. fair ent \<longrightarrow> (\<exists>x ent'. m ent = Some (Inr x, ent') \<and> fair ent'))"

text \<open>An entropy source to run the generator on: it delivers the byte 7 for ever.\<close>

definition sevens :: byte_stream where
  "sevens = sconst 7"

section \<open>Characters, numerals and decimal values\<close>

lemma charCodeAt0_fromCharCode: "n < 256 \<Longrightarrow> charCodeAt0 (fromCharCode n) = n"
  by (simp add: charCodeAt0_def fromCharCode_def)

lemma fromCharCode_charCodeAt0: "fromCharCode (charCodeAt0 c) = c"
  by (simp add: charCodeAt0_def fromCharCode_def)

lemma isDigit_fromCharCode: "d < 10 \<Longrightarrow> isDigit (fromCharCode (48 + d))"
  by (simp add: isDigit_def charCodeAt0_fromCharCode)

lemma digits_of_nat_one: "n < 10 \<Longrightarrow> digits_of_nat n = [fromCharCode (48 + n)]"
  by (simp add: digits_of_nat.simps)

lemma digits_of_nat_two:
  "10 \<le> n \<Longrightarrow> n < 100 \<Longrightarrow>
   digits_of_nat n = [fromCharCode (48 + n div 10), fromCharCode (48 + n mod 10)]"
  by (subst digits_of_nat.simps) (simp add: digits_of_nat_one)

lemma toString_one: "0 \<le> i \<Longrightarrow> i < 10 \<Longrightarrow> toString i = [fromCharCode (48 + nat i)]"
  by (simp add: toString_def digits_of_nat_one)

lemma toString_two:
  "10 \<le> i \<Longrightarrow> i < 100 \<Longrightarrow>
   toString i = [fromCharCode (48 + nat i div 10), fromCharCode (48 + nat i mod 10)]"
  by (simp add: toString_def digits_of_nat_two)

lemma decimal_value_foldl:
  "foldl (\<lambda>acc c. acc * 10 + (int (charCodeAt0 c) - 48)) a s =
   a * 10 ^ length s + decimal_value s"
proof (induction s arbitrary: a)
  case Nil
  show ?case by (simp add: decimal_value_def)
next
  case (Cons c s)
  have "foldl (\<lambda>acc c. acc * 10 + (int (charCodeAt0 c) - 48)) a (c # s) =
        (a * 10 + (int (charCodeAt0 c) - 48)) * 10 ^ length s + decimal_value s"
    by (simp add: Cons.IH)
  moreover have "decimal_value (c # s) = (int (charCodeAt0 c) - 48) * 10 ^ length s + decimal_value s"
    by (simp add: decimal_value_def Cons.IH [of "int (charCodeAt0 c) - 48"])
  ultimately show ?case by (simp add: algebra_simps)
qed

lemma decimal_value_append:
  "decimal_value (a @ b) = decimal_value a * 10 ^ length b + decimal_value b"
proof -
  have "decimal_value (a @ b) =
        foldl (\<lambda>acc c. acc * 10 + (int (charCodeAt0 c) - 48)) (decimal_value a) b"
    by (simp add: decimal_value_def)
  then show ?thesis by (simp add: decimal_value_foldl)
qed

lemma decimal_value_nonneg: "list_all isDigit s \<Longrightarrow> 0 \<le> decimal_value s"
proof (induction s rule: rev_induct)
  case Nil
  show ?case by (simp add: decimal_value_def)
next
  case (snoc c s)
  then have "0 \<le> decimal_value s" and "48 \<le> charCodeAt0 c" by (simp_all add: isDigit_def)
  then show ?case by (simp add: decimal_value_append) (simp add: decimal_value_def)
qed

lemma decimal_value_two:
  "a < 10 \<Longrightarrow> b < 10 \<Longrightarrow>
   decimal_value [fromCharCode (48 + a), fromCharCode (48 + b)] = int (10 * a + b)"
  by (simp add: decimal_value_def charCodeAt0_fromCharCode)

lemma toUpperCase_char_alnum: "alnum c \<Longrightarrow> toUpperCase_char c = c"
  by (auto simp: alnum_def toUpperCase_char_def isLower_def isDigit_def isUpper_def)

lemma charToNumber_alnum: "alnum c \<Longrightarrow> charToNumber c = Inr (token c)"
  by (auto simp: alnum_def charToNumber_def token_def isDigit_def isUpper_def Let_def)

lemma token_digits: "alnum c \<Longrightarrow> list_all isDigit (token c)"
proof (cases "isDigit c")
  case True
  then show ?thesis by (simp add: token_def)
next
  case False
  assume "alnum c"
  with False have u: "65 \<le> charCodeAt0 c" "charCodeAt0 c \<le> 90"
    by (simp_all add: alnum_def isUpper_def)
  then have "toString (int (charCodeAt0 c) - 55) =
      [fromCharCode (48 + nat (int (charCodeAt0 c) - 55) div 10),
       fromCharCode (48 + nat (int (charCodeAt0 c) - 55) mod 10)]"
    by (intro toString_two) simp_all
  moreover have "nat (int (charCodeAt0 c) - 55) div 10 < 10" using u by simp
  ultimately show ?thesis using False by (simp add: token_def isDigit_fromCharCode)
qed

lemma token_of_digit: "isDigit c \<Longrightarrow> token c = [c]"
  by (simp add: token_def)

lemma numericString_loop_alnum:
  "list_all alnum s \<Longrightarrow> numericString_loop acc s = Inr (acc @ transliterate s)"
  by (induction s arbitrary: acc)
     (simp_all add: transliterate_def toUpperCase_char_alnum charToNumber_alnum)

lemma charToNumber_digits: "charToNumber c = Inr t \<Longrightarrow> list_all isDigit t \<and> t \<noteq> []"
proof -
  assume r: "charToNumber c = Inr t"
  show ?thesis
  proof (cases "isDigit c")
    case True
    with r show ?thesis by (auto simp: charToNumber_def isDigit_def Let_def)
  next
    case False
    with r have u: "isUpper c" and t: "t = toString (int (charCodeAt0 c) - 55)"
      by (auto simp: charToNumber_def isDigit_def isUpper_def Let_def split: if_splits)
    from u have "alnum c" by (simp add: alnum_def)
    from token_digits [OF this] False t have "list_all isDigit t" by (simp add: token_def)
    moreover from u have "10 \<le> int (charCodeAt0 c) - 55" "int (charCodeAt0 c) - 55 < 100"
      by (simp_all add: isUpper_def)
    then have "t \<noteq> []" unfolding t by (simp add: toString_two)
    ultimately show ?thesis by simp
  qed
qed

text \<open>Whatever reaches \<open>BigInt\<close> in \<open>calculateCheckDigits\<close> is a string of decimal digits.\<close>

lemma numericString_loop_digits:
  "numericString_loop acc s = Inr ns \<Longrightarrow> list_all isDigit acc \<Longrightarrow> list_all isDigit ns"
proof (induction s arbitrary: acc)
  case Nil
  then show ?case by simp
next
  case (Cons c s)
  from Cons.prems(1) obtain t where t: "charToNumber (toUpperCase_char c) = Inr t"
    and l: "numericString_loop (acc @ t) s = Inr ns"
    by (auto split: sum.splits)
  from charToNumber_digits [OF t] Cons.prems(2) have "list_all isDigit (acc @ t)" by simp
  with l show ?case by (rule Cons.IH)
qed

lemma transliterate_digits: "list_all alnum s \<Longrightarrow> list_all isDigit (transliterate s)"
  by (induction s) (simp_all add: transliterate_def token_digits)

lemma transliterate_of_digits: "list_all isDigit s \<Longrightarrow> transliterate s = s"
  by (induction s) (simp_all add: transliterate_def token_of_digit)

lemma js_rem_nonneg: "0 \<le> a \<Longrightarrow> 0 < b \<Longrightarrow> js_rem a b = a mod b"
  by (cases "a = 0") (simp_all add: js_rem_def)

section \<open>The check digits\<close>

lemma transliterate_append: "transliterate (a @ b) = transliterate a @ transliterate b"
  by (simp add: transliterate_def)

lemma fromCharCode_48: "fromCharCode 48 = CHR ''0''"
  by (simp add: fromCharCode_def char_of_def bit_Suc_0_iff)

lemma pad2:
  assumes "0 \<le> v" "v < 100"
  shows "padStart 2 (CHR ''0'') (toString v) =
         [fromCharCode (48 + nat v div 10), fromCharCode (48 + nat v mod 10)]"
proof (cases "v < 10")
  case True
  with assms show ?thesis
    by (simp add: toString_one padStart_def fromCharCode_48 [symmetric])
next
  case False
  with assms show ?thesis
    by (simp add: toString_two padStart_def)
qed

lemma pad2_facts:
  assumes "0 \<le> v" "v < 100"
  shows "length (padStart 2 (CHR ''0'') (toString v)) = 2"
    and "list_all isDigit (padStart 2 (CHR ''0'') (toString v))"
    and "decimal_value (padStart 2 (CHR ''0'') (toString v)) = v"
proof -
  have d: "nat v div 10 < 10" "nat v mod 10 < 10" using assms by simp_all
  show "length (padStart 2 (CHR ''0'') (toString v)) = 2"
    using assms by (simp add: pad2)
  show "list_all isDigit (padStart 2 (CHR ''0'') (toString v))"
    using assms d by (simp add: pad2 isDigit_fromCharCode)
  have "decimal_value (padStart 2 (CHR ''0'') (toString v)) =
        int (10 * (nat v div 10) + nat v mod 10)"
    using assms d by (simp only: pad2 decimal_value_two)
  also have "\<dots> = v" using assms by simp
  finally show "decimal_value (padStart 2 (CHR ''0'') (toString v)) = v" .
qed

lemma transliterate_00: "transliterate ''00'' = ''00''"
  by (rule transliterate_of_digits) (simp add: isDigit_def charCodeAt0_def)

lemma decimal_value_00: "decimal_value ''00'' = 0"
  by (simp add: decimal_value_def charCodeAt0_def)

text \<open>The numeral that the engine reduces, and the check digits it returns.\<close>

lemma calculateCheckDigits_alnum:
  assumes "list_all alnum (bankCode @ accountNumber @ countryCode)"
  shows "calculateCheckDigits countryCode bankCode accountNumber =
         Inr (padStart 2 (CHR ''0'')
               (toString (98 - (decimal_value (transliterate (bankCode @ accountNumber @ countryCode)) * 100) mod 97)))"
proof -
  let ?body = "bankCode @ accountNumber @ countryCode"
  have a: "list_all alnum (?body @ ''00'')"
    using assms by (simp add: alnum_def isDigit_def charCodeAt0_def)
  have n: "numericString_loop [] (?body @ ''00'') = Inr (transliterate ?body @ ''00'')"
    using numericString_loop_alnum [OF a, of "[]"]
    by (simp only: transliterate_append transliterate_00 append_Nil)
  have v: "decimal_value (transliterate ?body @ ''00'') = decimal_value (transliterate ?body) * 100"
    by (simp add: decimal_value_append decimal_value_00)
  have "list_all isDigit (transliterate ?body)"
    using assms by (rule transliterate_digits)
  then have "0 \<le> decimal_value (transliterate ?body) * 100"
    using decimal_value_nonneg by simp
  then have r: "js_rem (decimal_value (transliterate ?body) * 100) 97 =
                (decimal_value (transliterate ?body) * 100) mod 97"
    by (simp add: js_rem_nonneg)
  have n': "numericString_loop [] (bankCode @ accountNumber @ countryCode @ ''00'') =
            Inr (transliterate ?body @ ''00'')"
    using n by simp
  show ?thesis
    by (simp add: calculateCheckDigits_def n' v r Let_def)
qed

lemma check_digits_value:
  assumes "list_all alnum (bankCode @ accountNumber @ countryCode)"
  defines "v \<equiv> 98 - (decimal_value (transliterate (bankCode @ accountNumber @ countryCode)) * 100) mod 97"
  shows "calculateCheckDigits countryCode bankCode accountNumber =
           Inr (padStart 2 (CHR ''0'') (toString v))"
    and "2 \<le> v" and "v \<le> 98"
proof -
  show "calculateCheckDigits countryCode bankCode accountNumber =
           Inr (padStart 2 (CHR ''0'') (toString v))"
    unfolding v_def using assms(1) by (rule calculateCheckDigits_alnum)
  show "2 \<le> v" unfolding v_def
    using pos_mod_bound [of 97 "decimal_value (transliterate (bankCode @ accountNumber @ countryCode)) * 100"]
    by linarith
  show "v \<le> 98" unfolding v_def
    using pos_mod_sign [of 97 "decimal_value (transliterate (bankCode @ accountNumber @ countryCode)) * 100"]
    by linarith
qed

lemma check_digits_shape:
  assumes "list_all alnum (bankCode @ accountNumber @ countryCode)"
    and "calculateCheckDigits countryCode bankCode accountNumber = Inr cd"
  shows "length cd = 2" and "list_all isDigit cd"
    and "2 \<le> decimal_value cd" and "decimal_value cd \<le> 98"
    and "decimal_value cd =
         98 - (decimal_value (transliterate (bankCode @ accountNumber @ countryCode)) * 100) mod 97"
proof -
  let ?v = "98 - (decimal_value (transliterate (bankCode @ accountNumber @ countryCode)) * 100) mod 97"
  have v: "0 \<le> ?v" "?v < 100" "2 \<le> ?v" "?v \<le> 98"
    using check_digits_value(2,3) [OF assms(1)] by simp_all
  have cd: "cd = padStart 2 (CHR ''0'') (toString ?v)"
    using check_digits_value(1) [OF assms(1)] assms(2) by simp
  show "length cd = 2" unfolding cd using v(1,2) by (rule pad2_facts)
  show "list_all isDigit cd" unfolding cd using v(1,2) by (rule pad2_facts)
  show e: "decimal_value cd = ?v" unfolding cd using v(1,2) by (rule pad2_facts)
  show "2 \<le> decimal_value cd" using e v(3) by simp
  show "decimal_value cd \<le> 98" using e v(4) by simp
qed

lemma mod97_arith: "((x::int) * 100 + (98 - (x * 100) mod 97)) mod 97 = 1"
proof -
  define y q r where "y = x * 100" and "q = y div 97" and "r = y mod 97"
  have "y = 97 * q + r" by (simp add: q_def r_def)
  then have "y + (98 - r) = 97 * (q + 1) + 1" by (simp add: algebra_simps)
  then have "(y + (98 - r)) mod 97 = (97 * (q + 1) + 1) mod 97" by (rule arg_cong)
  also have "\<dots> = 1" by (simp only: mod_mult_self4) simp
  finally show ?thesis by (simp add: y_def r_def)
qed

lemma check_digits_mod97:
  assumes "list_all alnum (bankCode @ accountNumber @ countryCode)"
    and "calculateCheckDigits countryCode bankCode accountNumber = Inr cd"
  shows "decimal_value (transliterate (bankCode @ accountNumber @ countryCode @ cd)) mod 97 = 1"
proof -
  let ?body = "bankCode @ accountNumber @ countryCode"
  note s = check_digits_shape [OF assms]
  have "transliterate (?body @ cd) = transliterate ?body @ cd"
    by (simp only: transliterate_append transliterate_of_digits [OF s(2)])
  then have "decimal_value (transliterate (?body @ cd)) =
             decimal_value (transliterate ?body) * 100 +
             (98 - (decimal_value (transliterate ?body) * 100) mod 97)"
    by (simp add: decimal_value_append s(1) s(5))
  then have "decimal_value (transliterate (?body @ cd)) mod 97 = 1"
    by (simp only: mod97_arith)
  then show ?thesis by simp
qed

lemma calculateCheckDigits_concat:
  "calculateCheckDigits countryCode (bankCode @ accountNumber) [] =
   calculateCheckDigits countryCode bankCode accountNumber"
  by (simp add: calculateCheckDigits_def)

lemma legacy_replace_letters_alnum:
  "list_all alnum s \<Longrightarrow> legacy_replace_letters s = transliterate s"
proof -
  assume a: "list_all alnum s"
  have "map (\<lambda>char. if isUpper char then toString (int (charCodeAt0 char) - 55) else [char]) s =
        map token s"
  proof (rule map_cong [OF refl])
    fix c assume "c \<in> set s"
    with a have "alnum c" by (simp add: list_all_iff)
    then show "(if isUpper c then toString (int (charCodeAt0 c) - 55) else [c]) = token c"
      by (auto simp: alnum_def token_def isUpper_def isDigit_def)
  qed
  then show ?thesis by (simp only: legacy_replace_letters_def transliterate_def)
qed

lemma legacy_calculateCheckDigits_alnum:
  assumes "list_all alnum (bankCode @ accountNumber @ countryCode)"
  shows "legacy_calculateCheckDigits other countryCode bankCode accountNumber =
         Inr (padStart 2 (CHR ''0'')
               (toString (98 - (decimal_value (transliterate (bankCode @ accountNumber @ countryCode)) * 100) mod 97)))"
proof -
  let ?body = "bankCode @ accountNumber @ countryCode"
  have a: "list_all alnum (?body @ ''00'')"
    using assms by (simp add: alnum_def isDigit_def charCodeAt0_def)
  have n: "legacy_replace_letters (bankCode @ accountNumber @ countryCode @ ''00'') =
           transliterate ?body @ ''00''"
    using legacy_replace_letters_alnum [OF a]
    by (simp only: transliterate_append transliterate_00 append_assoc)
  have d: "list_all isDigit (transliterate ?body @ ''00'')"
    using transliterate_digits [OF assms] by (simp add: isDigit_def charCodeAt0_def)
  have b: "BigInt other (transliterate ?body @ ''00'') =
           Inr (decimal_value (transliterate ?body) * 100)"
    using d by (simp add: BigInt_def decimal_value_append decimal_value_00)
  have "0 \<le> decimal_value (transliterate ?body) * 100"
    using decimal_value_nonneg [OF transliterate_digits [OF assms]] by simp
  then have r: "js_rem (decimal_value (transliterate ?body) * 100) 97 =
                (decimal_value (transliterate ?body) * 100) mod 97"
    by (simp add: js_rem_nonneg)
  show ?thesis
    by (simp add: legacy_calculateCheckDigits_def n b r Let_def)
qed

lemma check_digits_NL_ABNA: "calculateCheckDigits ''NL'' ''ABNA'' ''0417164300'' = Inr ''91''"
  by (simp add: calculateCheckDigits_def charToNumber_def toUpperCase_char_def isLower_def
      charCodeAt0_def toString_def digits_of_nat.simps fromCharCode_def decimal_value_def
      js_rem_def padStart_def char_of_def bit_Suc_0_iff)

lemma alnum_simps:
  "alnum c = ((48 \<le> (of_char c :: nat) \<and> (of_char c :: nat) \<le> 57) \<or>
              (65 \<le> (of_char c :: nat) \<and> (of_char c :: nat) \<le> 90))"
  by (simp add: alnum_def isDigit_def isUpper_def charCodeAt0_def)

lemma check_digits_NL_ABNA_3: "calculateCheckDigits ''NL'' ''ABNA'' ''0000000003'' = Inr ''04''"
  by (simp add: calculateCheckDigits_def charToNumber_def toUpperCase_char_def isLower_def
      charCodeAt0_def toString_def digits_of_nat.simps fromCharCode_def decimal_value_def
      js_rem_def padStart_def char_of_def bit_Suc_0_iff)

section \<open>The rejection loop\<close>

lemma draw_0: "draw b ent 0 = stake b ent"
  by (simp add: draw_def)

lemma draw_Suc: "draw b (sdrop b ent) k = draw b ent (Suc k)"
  by (simp add: draw_def add.commute)

lemma sdrop_Suc_mult: "sdrop (Suc k * b) (sdrop b ent) = sdrop (Suc (Suc k) * b) ent"
  by (simp add: add.commute)

lemma draw_loop_first_accepted:
  assumes "int (reduce_bytes (draw b ent k)) \<le> mv"
    and "\<forall>j<k. mv < int (reduce_bytes (draw b ent j))"
  shows "draw_loop b mv ent = Some (reduce_bytes (draw b ent k), sdrop (Suc k * b) ent)"
  using assms
proof (induction k arbitrary: ent)
  case 0
  then show ?case by (subst draw_loop.simps) (simp add: draw_def)
next
  case (Suc k)
  from Suc.prems(2) have "mv < int (reduce_bytes (draw b ent 0))" by blast
  then have rej: "mv < int (reduce_bytes (stake b ent))" by (simp add: draw_0)
  have "draw_loop b mv (sdrop b ent) =
        Some (reduce_bytes (draw b (sdrop b ent) k), sdrop (Suc k * b) (sdrop b ent))"
  proof (rule Suc.IH)
    show "int (reduce_bytes (draw b (sdrop b ent) k)) \<le> mv"
      using Suc.prems(1) by (simp add: draw_Suc)
    show "\<forall>j<k. mv < int (reduce_bytes (draw b (sdrop b ent) j))"
      using Suc.prems(2) by (simp add: draw_Suc)
  qed
  then have "draw_loop b mv (sdrop b ent) =
        Some (reduce_bytes (draw b ent (Suc k)), sdrop (Suc (Suc k) * b) ent)"
    by (simp only: draw_Suc sdrop_Suc_mult)
  with rej show ?case by (subst draw_loop.simps) simp
qed

lemma draw_loop_SomeD:
  assumes "draw_loop b mv ent = Some y"
  shows "\<exists>k. int (reduce_bytes (draw b ent k)) \<le> mv \<and>
             (\<forall>j<k. mv < int (reduce_bytes (draw b ent j))) \<and>
             y = (reduce_bytes (draw b ent k), sdrop (Suc k * b) ent)"
proof (rule draw_loop.raw_induct [where P = "\<lambda>b mv ent y.
         \<exists>k. int (reduce_bytes (draw b ent k)) \<le> mv \<and>
             (\<forall>j<k. mv < int (reduce_bytes (draw b ent j))) \<and>
             y = (reduce_bytes (draw b ent k), sdrop (Suc k * b) ent)", OF _ assms])
  fix loop :: "nat \<Rightarrow> int \<Rightarrow> byte_stream \<Rightarrow> (nat \<times> byte_stream) option"
  fix b mv ent y
  assume IH: "\<And>b mv ent y. loop b mv ent = Some y \<Longrightarrow>
         \<exists>k. int (reduce_bytes (draw b ent k)) \<le> mv \<and>
             (\<forall>j<k. mv < int (reduce_bytes (draw b ent j))) \<and>
             y = (reduce_bytes (draw b ent k), sdrop (Suc k * b) ent)"
    and eq: "(if mv < int (reduce_bytes (stake b ent)) then loop b mv (sdrop b ent)
              else Some (reduce_bytes (stake b ent), sdrop b ent)) = Some y"
  show "\<exists>k. int (reduce_bytes (draw b ent k)) \<le> mv \<and>
             (\<forall>j<k. mv < int (reduce_bytes (draw b ent j))) \<and>
             y = (reduce_bytes (draw b ent k), sdrop (Suc k * b) ent)"
  proof (cases "mv < int (reduce_bytes (stake b ent))")
    case True
    with eq have "loop b mv (sdrop b ent) = Some y" by simp
    from IH [OF this] obtain k where
      k: "int (reduce_bytes (draw b (sdrop b ent) k)) \<le> mv"
         "\<forall>j<k. mv < int (reduce_bytes (draw b (sdrop b ent) j))"
         "y = (reduce_bytes (draw b (sdrop b ent) k), sdrop (Suc k * b) (sdrop b ent))"
      by blast
    have "\<forall>j<Suc k. mv < int (reduce_bytes (draw b ent j))"
    proof (intro allI impI)
      fix j assume "j < Suc k"
      show "mv < int (reduce_bytes (draw b ent j))"
      proof (cases j)
        case 0
        with True show ?thesis by (simp add: draw_0)
      next
        case (Suc i)
        with \<open>j < Suc k\<close> k(2) show ?thesis by (simp add: draw_Suc)
      qed
    qed
    moreover from k(1) have "int (reduce_bytes (draw b ent (Suc k))) \<le> mv"
      by (simp add: draw_Suc)
    moreover from k(3) have "y = (reduce_bytes (draw b ent (Suc k)), sdrop (Suc (Suc k) * b) ent)"
      by (simp only: draw_Suc sdrop_Suc_mult)
    ultimately show ?thesis by blast
  next
    case False
    with eq have "y = (reduce_bytes (stake b ent), sdrop b ent)" by simp
    with False have "int (reduce_bytes (draw b ent 0)) \<le> mv \<and>
        (\<forall>j<0. mv < int (reduce_bytes (draw b ent j))) \<and>
        y = (reduce_bytes (draw b ent 0), sdrop (Suc 0 * b) ent)"
      by (simp add: draw_0)
    then show ?thesis by blast
  qed
qed

lemma draw_loop_None:
  assumes "\<forall>k. mv < int (reduce_bytes (draw b ent k))"
  shows "draw_loop b mv ent = None"
proof (cases "draw_loop b mv ent")
  case None
  then show ?thesis .
next
  case (Some y)
  from draw_loop_SomeD [OF this] obtain k where "int (reduce_bytes (draw b ent k)) \<le> mv"
    by blast
  with assms have False by (simp add: not_le [symmetric])
  then show ?thesis ..
qed

section \<open>The number of bytes of a draw\<close>

lemma le_256_div: "n \<le> 256 * ((n + 255) div 256)" for n :: nat
proof -
  define q r where "q = (n + 255) div 256" and "r = (n + 255) mod 256"
  have "256 * q + r = n + 255" by (simp add: q_def r_def)
  moreover have "r < 256" by (simp add: r_def)
  ultimately have "n \<le> 256 * q" by linarith
  then show ?thesis by (simp only: q_def)
qed

lemma div_256_less: "1 < n \<Longrightarrow> 256 * ((n + 255) div 256 - 1) < n" for n :: nat
proof -
  assume n: "1 < n"
  define q r where "q = (n + 255) div 256" and "r = (n + 255) mod 256"
  have "256 * q + r = n + 255" by (simp add: q_def r_def)
  then have "256 * q \<le> n + 255" by linarith
  then have "256 * (q - 1) < n" using n by (cases q) simp_all
  then show ?thesis by (simp only: q_def)
qed

lemma ceil_log256_unfold: "\<not> n \<le> 1 \<Longrightarrow> ceil_log256 n = Suc (ceil_log256 ((n + 255) div 256))"
  by (subst ceil_log256.simps) simp

lemma ceil_log256_small: "n \<le> 1 \<Longrightarrow> ceil_log256 n = 0"
  by (subst ceil_log256.simps) simp

lemma ceil_log256_ge: "n \<le> 256 ^ ceil_log256 n"
proof (induction n rule: ceil_log256.induct)
  case (1 n)
  show ?case
  proof (cases "n \<le> 1")
    case True
    then show ?thesis by (simp add: ceil_log256_small)
  next
    case False
    define m where "m = (n + 255) div 256"
    from 1 [OF False] have "m \<le> 256 ^ ceil_log256 m" by (simp only: m_def)
    then have "256 * m \<le> 256 * 256 ^ ceil_log256 m" by (rule mult_le_mono2)
    moreover have "n \<le> 256 * m" unfolding m_def by (rule le_256_div)
    ultimately have "n \<le> 256 * 256 ^ ceil_log256 m" by (rule le_trans [rotated])
    moreover have "ceil_log256 n = Suc (ceil_log256 m)"
      unfolding m_def using False by (rule ceil_log256_unfold)
    ultimately show ?thesis by (simp only: power_Suc)
  qed
qed

lemma ceil_log256_least: "1 < n \<Longrightarrow> 256 ^ (ceil_log256 n - 1) < n"
proof (induction n rule: ceil_log256.induct)
  case (1 n)
  define m where "m = (n + 255) div 256"
  from "1.prems" have n: "\<not> n \<le> 1" by simp
  have c: "ceil_log256 n = Suc (ceil_log256 m)"
    unfolding m_def using n by (rule ceil_log256_unfold)
  show ?case
  proof (cases "1 < m")
    case False
    then have "ceil_log256 m = 0" by (simp add: ceil_log256_small)
    with c "1.prems" show ?thesis by simp
  next
    case True
    then have "\<not> m \<le> 1" by simp
    then have "ceil_log256 m = Suc (ceil_log256 ((m + 255) div 256))"
      by (rule ceil_log256_unfold)
    then obtain c' where c': "ceil_log256 m = Suc c'" by blast
    from "1.IH" [OF n] True have "256 ^ (ceil_log256 m - 1) < m" by (simp only: m_def)
    then have "256 ^ c' < m" by (simp add: c')
    then have "256 ^ c' \<le> m - 1" by simp
    then have "256 * 256 ^ c' \<le> 256 * (m - 1)" by (rule mult_le_mono2)
    moreover have "256 * (m - 1) < n"
      unfolding m_def using "1.prems" by (rule div_256_less)
    ultimately have "256 * 256 ^ c' < n" by (rule le_less_trans)
    then show ?thesis by (simp add: c c')
  qed
qed

lemma log2_div_8: "log 2 x / 8 = log 256 x"
proof -
  have "(256::real) = 2 ^ 8" by simp
  then have "log 256 x = log (2 ^ 8) x" by (rule arg_cong)
  also have "\<dots> = log 2 x / real 8" by (rule log_base_pow) simp
  finally show ?thesis by simp
qed

lemma log256_upper:
  assumes "1 \<le> n"
  shows "log 256 (real n) \<le> real (ceil_log256 n)"
proof -
  have "real n \<le> real (256 ^ ceil_log256 n)"
    by (simp only: of_nat_le_iff ceil_log256_ge)
  then have "real n \<le> 256 powr real (ceil_log256 n)"
    by (simp add: powr_realpow)
  moreover have "0 < real n" using assms by simp
  ultimately show ?thesis by (simp only: log_le_iff [of 256, simplified])
qed

lemma log256_lower:
  assumes "1 < n"
  shows "real (ceil_log256 n) - 1 < log 256 (real n)"
proof -
  have "0 < ceil_log256 n" using assms by (simp add: ceil_log256_unfold)
  then have e: "real (ceil_log256 n) - 1 = real (ceil_log256 n - 1)" by simp
  have "real (256 ^ (ceil_log256 n - 1)) < real n"
    using ceil_log256_least [OF assms] by (simp only: of_nat_less_iff)
  then have "256 powr real (ceil_log256 n - 1) < real n"
    by (simp add: powr_realpow)
  moreover have "0 < real n" using assms by simp
  ultimately have "real (ceil_log256 n - 1) < log 256 (real n)"
    by (simp only: less_log_iff [of 256, simplified])
  then show ?thesis by (simp only: e)
qed

text \<open>The integer computation agrees with \<open>Math.ceil(Math.log2(range) / 8)\<close> over the reals.\<close>

lemma bytesNeeded_log2:
  assumes "1 \<le> n"
  shows "int (ceil_log256 n) = \<lceil>log 2 (real n) / 8\<rceil>"
proof -
  have up: "log 256 (real n) \<le> real_of_int (int (ceil_log256 n))"
    using log256_upper [OF assms] by simp
  have low: "real_of_int (int (ceil_log256 n)) - 1 < log 256 (real n)"
  proof (cases "1 < n")
    case True
    then show ?thesis using log256_lower [OF True] by simp
  next
    case False
    with assms have "n = 1" by simp
    then show ?thesis by (simp add: ceil_log256_small)
  qed
  have "\<lceil>log 256 (real n)\<rceil> = int (ceil_log256 n)"
    using low up by (rule ceiling_unique)
  then show ?thesis by (simp only: log2_div_8)
qed

section \<open>Raw draws and their values\<close>

lemma upt_shift: "[i..<i + Suc n] = i # [Suc i..<Suc i + n]"
  using upt_conv_Cons [of i "i + Suc n"] by (simp del: upt_Suc)

lemma reduce_bytes_foldl:
  "foldl (\<lambda>sum (byte, index). sum + unat byte * 256 ^ index) a (zip bs [i..<i + length bs]) =
   a + 256 ^ i *
     foldl (\<lambda>sum (byte, index). sum + unat byte * 256 ^ index) 0 (zip bs [0..<0 + length bs])"
proof (induction bs arbitrary: a i)
  case Nil
  show ?case by simp
next
  case (Cons x xs)
  let ?f = "\<lambda>sum (byte, index). sum + unat byte * 256 ^ index"
  let ?F = "foldl ?f 0 (zip xs [0..<0 + length xs])"
  have "foldl ?f a (zip (x # xs) [i..<i + length (x # xs)]) =
        foldl ?f (a + unat x * 256 ^ i) (zip xs [Suc i..<Suc i + length xs])"
    by (simp only: length_Cons upt_shift zip_Cons_Cons foldl_Cons prod.case)
  also have "\<dots> = (a + unat x * 256 ^ i) + 256 ^ Suc i * ?F"
    by (rule Cons.IH)
  finally have l: "foldl ?f a (zip (x # xs) [i..<i + length (x # xs)]) =
        (a + unat x * 256 ^ i) + 256 ^ Suc i * ?F" .
  have "foldl ?f 0 (zip (x # xs) [0..<0 + length (x # xs)]) =
        foldl ?f (0 + unat x * 256 ^ 0) (zip xs [Suc 0..<Suc 0 + length xs])"
    by (simp only: length_Cons upt_shift zip_Cons_Cons foldl_Cons prod.case)
  also have "\<dots> = (0 + unat x * 256 ^ 0) + 256 ^ Suc 0 * ?F"
    by (rule Cons.IH)
  finally have r: "foldl ?f 0 (zip (x # xs) [0..<0 + length (x # xs)]) = unat x + 256 * ?F"
    by simp
  show ?case by (simp only: l r) (simp add: algebra_simps)
qed

lemma reduce_bytes_Nil: "reduce_bytes [] = 0"
  by (simp add: reduce_bytes_def)

lemma reduce_bytes_Cons: "reduce_bytes (x # xs) = unat x + 256 * reduce_bytes xs"
proof -
  let ?f = "\<lambda>sum (byte, index). sum + unat byte * 256 ^ index"
  have "reduce_bytes (x # xs) = foldl ?f 0 (zip (x # xs) [0..<0 + Suc (length xs)])"
    by (simp only: reduce_bytes_def length_Cons add_0)
  also have "\<dots> = foldl ?f (0 + unat x * 256 ^ 0) (zip xs [Suc 0..<Suc 0 + length xs])"
    by (simp only: upt_shift zip_Cons_Cons foldl_Cons prod.case)
  also have "\<dots> = (0 + unat x * 256 ^ 0) + 256 ^ Suc 0 *
      foldl ?f 0 (zip xs [0..<0 + length xs])"
    by (rule reduce_bytes_foldl)
  also have "\<dots> = unat x + 256 * reduce_bytes xs"
    by (simp add: reduce_bytes_def)
  finally show ?thesis .
qed

lemma unat_byte_less: "unat (x :: 8 word) < 256"
  using unsigned_less [of x, where 'a = nat] by simp




lemma finite_byte_lists: "finite {bs :: 8 word list. length bs = b}"
  using finite_lists_length_eq [of "UNIV :: 8 word set" b] by simp







lemma result_of_nat:
  assumes "min' \<le> max'"
  shows "result_of min' max' bs = min' + int (reduce_bytes bs mod nat (max' - min' + 1))"
proof -
  define r where "r = nat (max' - min' + 1)"
  have R: "max' - min' + 1 = int r" and r: "0 < r" using assms by (simp_all add: r_def)
  have "js_rem (int (reduce_bytes bs)) (int r) = int (reduce_bytes bs) mod int r"
    using r by (intro js_rem_nonneg) simp_all
  then show ?thesis
    by (simp add: result_of_def R r_def [symmetric] zmod_int)
qed

lemma result_of_range:
  assumes "min' \<le> max'"
  shows "min' \<le> result_of min' max' bs" and "result_of min' max' bs \<le> max'"
proof -
  define r where "r = nat (max' - min' + 1)"
  have r: "0 < r" and R: "int r = max' - min' + 1" using assms by (simp_all add: r_def)
  have "reduce_bytes bs mod r < r" using r by simp
  then have "int (reduce_bytes bs mod r) < max' - min' + 1" using R by linarith
  then show "result_of min' max' bs \<le> max'"
    by (simp add: result_of_nat [OF assms] r_def [symmetric])
  show "min' \<le> result_of min' max' bs"
    by (simp add: result_of_nat [OF assms])
qed



section \<open>The secure random integer\<close>

lemma getSecureRandomInt_unfold:
  assumes "min' \<le> max'"
  shows "getSecureRandomInt min' max' ent =
         (case draw_loop (bytesNeeded min' max') (maxValidValue min' max') ent of
            None \<Rightarrow> None
          | Some (randomValue, ent') \<Rightarrow>
              Some (Inr (min' + js_rem (int randomValue) (max' - min' + 1)), ent'))"
  using assms by (simp add: getSecureRandomInt_def bytesNeeded_def maxValidValue_def Let_def)

lemma getSecureRandomInt_first_accepted:
  assumes "min' \<le> max'"
    and "accepted min' max' (draw (bytesNeeded min' max') ent k)"
    and "\<forall>j<k. \<not> accepted min' max' (draw (bytesNeeded min' max') ent j)"
  shows "getSecureRandomInt min' max' ent =
         Some (Inr (result_of min' max' (draw (bytesNeeded min' max') ent k)),
               sdrop (Suc k * bytesNeeded min' max') ent)"
proof -
  have "draw_loop (bytesNeeded min' max') (maxValidValue min' max') ent =
        Some (reduce_bytes (draw (bytesNeeded min' max') ent k),
              sdrop (Suc k * bytesNeeded min' max') ent)"
    using assms(2,3) by (intro draw_loop_first_accepted) (simp_all add: accepted_def not_le)
  then show ?thesis
    by (simp add: getSecureRandomInt_unfold [OF assms(1)] result_of_def)
qed

lemma getSecureRandomInt_SomeD:
  assumes "min' \<le> max'" and "getSecureRandomInt min' max' ent = Some (r, ent')"
  shows "\<exists>k. accepted min' max' (draw (bytesNeeded min' max') ent k) \<and>
             (\<forall>j<k. \<not> accepted min' max' (draw (bytesNeeded min' max') ent j)) \<and>
             r = Inr (result_of min' max' (draw (bytesNeeded min' max') ent k)) \<and>
             ent' = sdrop (Suc k * bytesNeeded min' max') ent"
proof -
  from assms(2) obtain y where
    y: "draw_loop (bytesNeeded min' max') (maxValidValue min' max') ent = Some y"
    and r: "r = Inr (min' + js_rem (int (fst y)) (max' - min' + 1))" "ent' = snd y"
    by (auto simp: getSecureRandomInt_unfold [OF assms(1)] split: option.splits prod.splits)
  from draw_loop_SomeD [OF y] obtain k where
    k: "int (reduce_bytes (draw (bytesNeeded min' max') ent k)) \<le> maxValidValue min' max'"
       "\<forall>j<k. maxValidValue min' max' < int (reduce_bytes (draw (bytesNeeded min' max') ent j))"
       "y = (reduce_bytes (draw (bytesNeeded min' max') ent k),
             sdrop (Suc k * bytesNeeded min' max') ent)"
    by blast
  from k(1) have "accepted min' max' (draw (bytesNeeded min' max') ent k)"
    by (simp add: accepted_def)
  moreover from k(2) have "\<forall>j<k. \<not> accepted min' max' (draw (bytesNeeded min' max') ent j)"
    by (simp add: accepted_def not_le)
  moreover from r k(3) have "r = Inr (result_of min' max' (draw (bytesNeeded min' max') ent k))"
    and "ent' = sdrop (Suc k * bytesNeeded min' max') ent"
    by (simp_all add: result_of_def)
  ultimately show ?thesis by blast
qed

lemma getSecureRandomInt_in_range:
  assumes "min' \<le> max'" and "getSecureRandomInt min' max' ent = Some (r, ent')"
  shows "\<exists>v. r = Inr v \<and> min' \<le> v \<and> v \<le> max'"
proof -
  from getSecureRandomInt_SomeD [OF assms] obtain k where
    "r = Inr (result_of min' max' (draw (bytesNeeded min' max') ent k))" by blast
  then show ?thesis using result_of_range [OF assms(1)] by blast
qed

lemma getSecureRandomInt_never_accepted:
  assumes "min' \<le> max'"
    and "\<forall>k. \<not> accepted min' max' (draw (bytesNeeded min' max') ent k)"
  shows "getSecureRandomInt min' max' ent = None"
proof -
  have "draw_loop (bytesNeeded min' max') (maxValidValue min' max') ent = None"
    using assms(2) by (intro draw_loop_None) (simp add: accepted_def not_le)
  then show ?thesis by (simp add: getSecureRandomInt_unfold [OF assms(1)])
qed


text \<open>The calls that the generator makes.\<close>

lemma bytesNeeded_0_9: "bytesNeeded 0 9 = 1"
  by (simp add: bytesNeeded_def ceil_log256_unfold ceil_log256_small)

lemma maxValidValue_0_9: "maxValidValue 0 9 = 249"
  by (simp add: maxValidValue_def bytesNeeded_0_9)

lemma bytesNeeded_0_35: "bytesNeeded 0 35 = 1"
  by (simp add: bytesNeeded_def ceil_log256_unfold ceil_log256_small)

lemma maxValidValue_0_35: "maxValidValue 0 35 = 251"
  by (simp add: maxValidValue_def bytesNeeded_0_35)

lemma bytesNeeded_0_3: "bytesNeeded 0 3 = 1"
  by (simp add: bytesNeeded_def ceil_log256_unfold ceil_log256_small)

lemma maxValidValue_0_3: "maxValidValue 0 3 = 255"
  by (simp add: maxValidValue_def bytesNeeded_0_3)

lemma reduce_bytes_single: "reduce_bytes [x] = unat x"
  by (simp add: reduce_bytes_Cons reduce_bytes_Nil)

lemma draw_1: "draw (Suc 0) ent k = [ent !! k]"
  by (simp add: draw_def)

lemma sdrop_sconst: "sdrop n (sconst x) = sconst x"
  by (induction n) simp_all

text \<open>On a source that only ever delivers the byte 255 the loop for \<open>[0, 9]\<close> never ends.\<close>

lemma getSecureRandomInt_0_9_diverges: "getSecureRandomInt 0 9 (sconst 255) = None"
proof (rule getSecureRandomInt_never_accepted)
  show "(0::int) \<le> 9" by simp
  show "\<forall>k. \<not> accepted 0 9 (draw (bytesNeeded 0 9) (sconst 255) k)"
    by (simp add: accepted_def bytesNeeded_0_9 maxValidValue_0_9 draw_1 reduce_bytes_single)
qed

section \<open>Composition of computations\<close>

lemma postI: "(\<And>ent r ent'. m ent = Some (r, ent') \<Longrightarrow> \<exists>x. r = Inr x \<and> P x) \<Longrightarrow> post m P"
  unfolding post_def by blast

lemma postD: "post m P \<Longrightarrow> m ent = Some (r, ent') \<Longrightarrow> \<exists>x. r = Inr x \<and> P x"
  unfolding post_def by blast

lemma post_mono: "post m P \<Longrightarrow> (\<And>x. P x \<Longrightarrow> Q x) \<Longrightarrow> post m Q"
  unfolding post_def by blast

lemma post_return: "P x \<Longrightarrow> post (return x) P"
  by (simp add: post_def return_def)

lemma bind_SomeD:
  assumes "bind m f ent = Some (r, ent')"
  shows "(\<exists>e. m ent = Some (Inl e, ent') \<and> r = Inl e) \<or>
         (\<exists>x ent1. m ent = Some (Inr x, ent1) \<and> f x ent1 = Some (r, ent'))"
  using assms by (auto simp: bind_def split: option.splits sum.splits prod.splits)

lemma bind_Inr: "m ent = Some (Inr x, ent1) \<Longrightarrow> bind m f ent = f x ent1"
  by (simp add: bind_def)

lemma post_bind:
  assumes "post m P" and "\<And>x. P x \<Longrightarrow> post (f x) Q"
  shows "post (bind m f) Q"
proof (rule postI)
  fix ent r ent'
  assume "bind m f ent = Some (r, ent')"
  from bind_SomeD [OF this] show "\<exists>y. r = Inr y \<and> Q y"
  proof (elim disjE exE conjE)
    fix e assume "m ent = Some (Inl e, ent')"
    from postD [OF assms(1) this] show ?thesis by simp
  next
    fix x ent1 assume m: "m ent = Some (Inr x, ent1)" and f: "f x ent1 = Some (r, ent')"
    from postD [OF assms(1) m] have "P x" by simp
    from postD [OF assms(2) [OF this] f] show ?thesis .
  qed
qed

lemma totalD: "total m \<Longrightarrow> fair ent \<Longrightarrow> \<exists>x ent'. m ent = Some (Inr x, ent') \<and> fair ent'"
  unfolding total_def by blast

lemma total_return: "total (return x)"
  by (simp add: total_def return_def)

lemma total_bind:
  assumes "total m" and "\<And>x. total (f x)"
  shows "total (bind m f)"
  unfolding total_def
proof (intro allI impI)
  fix ent assume "fair ent"
  from totalD [OF assms(1) this] obtain x ent1 where
    m: "m ent = Some (Inr x, ent1)" and "fair ent1" by blast
  from totalD [OF assms(2) this(2)] obtain y ent' where
    "f x ent1 = Some (Inr y, ent')" and "fair ent'" by blast
  then show "\<exists>y ent'. bind m f ent = Some (Inr y, ent') \<and> fair ent'"
    by (simp add: bind_def m)
qed

lemma fair_sdrop: "fair ent \<Longrightarrow> fair (sdrop n ent)"
  unfolding fair_def
proof
  fix n' assume f: "\<forall>n. \<exists>m. n \<le> m \<and> unat (ent !! m) \<le> 249"
  then obtain m where "n + n' \<le> m" and "unat (ent !! m) \<le> 249" by blast
  then have "n' \<le> m - n \<and> unat (sdrop n ent !! (m - n)) \<le> 249"
    by (simp add: sdrop_snth)
  then show "\<exists>m. n' \<le> m \<and> unat (sdrop n ent !! m) \<le> 249" by blast
qed

lemma draw_one: "draw 1 ent k = [ent !! k]"
  by (simp add: draw_def)

lemma post_getSecureRandomInt:
  "min' \<le> max' \<Longrightarrow> post (getSecureRandomInt min' max') (\<lambda>v. min' \<le> v \<and> v \<le> max')"
  by (rule postI) (rule getSecureRandomInt_in_range)

lemma total_getSecureRandomInt:
  assumes "min' \<le> max'" and b: "bytesNeeded min' max' = 1"
    and mv: "249 \<le> maxValidValue min' max'"
  shows "total (getSecureRandomInt min' max')"
  unfolding total_def
proof (intro allI impI)
  fix ent assume f: "fair ent"
  then obtain m where "unat (ent !! m) \<le> 249" unfolding fair_def by blast
  then have "int (unat (ent !! m)) \<le> int 249" by (simp only: of_nat_le_iff)
  then have "int (unat (ent !! m)) \<le> maxValidValue min' max'" using mv by linarith
  then have ex: "accepted min' max' (draw (bytesNeeded min' max') ent m)"
    by (simp only: b accepted_def draw_one reduce_bytes_single)
  define k where "k = (LEAST k. accepted min' max' (draw (bytesNeeded min' max') ent k))"
  have "accepted min' max' (draw (bytesNeeded min' max') ent k)"
    unfolding k_def using ex by (rule LeastI)
  moreover have "\<forall>j<k. \<not> accepted min' max' (draw (bytesNeeded min' max') ent j)"
    unfolding k_def using not_less_Least by blast
  ultimately have "getSecureRandomInt min' max' ent =
      Some (Inr (result_of min' max' (draw (bytesNeeded min' max') ent k)),
            sdrop (Suc k * bytesNeeded min' max') ent)"
    using assms(1) by (intro getSecureRandomInt_first_accepted)
  moreover have "fair (sdrop (Suc k * bytesNeeded min' max') ent)"
    using f by (rule fair_sdrop)
  ultimately show "\<exists>x ent'. getSecureRandomInt min' max' ent = Some (Inr x, ent') \<and> fair ent'"
    by blast
qed

section \<open>Random strings\<close>

lemma post_numeric_loop:
  "post (numeric_loop n acc) (\<lambda>s. \<exists>ds. s = acc @ ds \<and> length ds = n \<and> list_all isDigit ds)"
proof (induction n arbitrary: acc)
  case 0
  show ?case by (simp add: post_return)
next
  case (Suc n)
  have "post (bind (getSecureRandomInt 0 9) (\<lambda>d. numeric_loop n (acc @ toString d)))
          (\<lambda>s. \<exists>ds. s = acc @ ds \<and> length ds = Suc n \<and> list_all isDigit ds)"
  proof (rule post_bind)
    show "post (getSecureRandomInt 0 9) (\<lambda>v. 0 \<le> v \<and> v \<le> 9)"
      by (rule post_getSecureRandomInt) simp
  next
    fix d :: int assume d: "0 \<le> d \<and> d \<le> 9"
    then have t: "toString d = [fromCharCode (48 + nat d)]" by (intro toString_one) simp_all
    from d have "nat d < 10" by (simp add: nat_less_iff)
    then have dg: "isDigit (fromCharCode (48 + nat d))" by (rule isDigit_fromCharCode)
    show "post (numeric_loop n (acc @ toString d))
            (\<lambda>s. \<exists>ds. s = acc @ ds \<and> length ds = Suc n \<and> list_all isDigit ds)"
    proof (rule post_mono [OF Suc.IH])
      fix s assume "\<exists>ds. s = (acc @ toString d) @ ds \<and> length ds = n \<and> list_all isDigit ds"
      then obtain ds where "s = acc @ (fromCharCode (48 + nat d) # ds)" "length ds = n"
        "list_all isDigit ds" by (auto simp: t)
      with dg have "s = acc @ (fromCharCode (48 + nat d) # ds) \<and>
          length (fromCharCode (48 + nat d) # ds) = Suc n \<and>
          list_all isDigit (fromCharCode (48 + nat d) # ds)" by simp
      then show "\<exists>ds. s = acc @ ds \<and> length ds = Suc n \<and> list_all isDigit ds" by blast
    qed
  qed
  then show ?case by simp
qed

lemma total_numeric_loop: "total (numeric_loop n acc)"
proof (induction n arbitrary: acc)
  case 0
  show ?case by (simp add: total_return)
next
  case (Suc n)
  have "total (getSecureRandomInt 0 9)"
    by (rule total_getSecureRandomInt) (simp_all add: bytesNeeded_0_9 maxValidValue_0_9)
  then show ?case by (simp add: total_bind Suc.IH)
qed

lemma chars_alnum: "list_all alnum chars"
  by (simp add: chars_def alnum_simps)

lemma char_at_chars:
  assumes "0 \<le> i \<and> i \<le> int (length chars) - 1"
  shows "\<exists>c. char_at chars i = [c] \<and> alnum c"
proof -
  from assms have "nat i < length chars" by (simp add: nat_less_iff)
  then have "alnum (chars ! nat i)" using chars_alnum by (simp add: list_all_length)
  moreover have "char_at chars i = [chars ! nat i]" using assms by (simp add: char_at_def)
  ultimately show ?thesis by blast
qed

lemma post_alphanumeric_loop:
  "post (alphanumeric_loop n acc) (\<lambda>s. \<exists>cs. s = acc @ cs \<and> length cs = n \<and> list_all alnum cs)"
proof (induction n arbitrary: acc)
  case 0
  show ?case by (simp add: post_return)
next
  case (Suc n)
  have "post (bind (getSecureRandomInt 0 (int (length chars) - 1))
               (\<lambda>i. alphanumeric_loop n (acc @ char_at chars i)))
          (\<lambda>s. \<exists>cs. s = acc @ cs \<and> length cs = Suc n \<and> list_all alnum cs)"
  proof (rule post_bind)
    show "post (getSecureRandomInt 0 (int (length chars) - 1))
            (\<lambda>v. 0 \<le> v \<and> v \<le> int (length chars) - 1)"
      by (rule post_getSecureRandomInt) (simp add: chars_def)
  next
    fix i :: int assume "0 \<le> i \<and> i \<le> int (length chars) - 1"
    from char_at_chars [OF this] obtain c where c: "char_at chars i = [c]" "alnum c" by blast
    show "post (alphanumeric_loop n (acc @ char_at chars i))
            (\<lambda>s. \<exists>cs. s = acc @ cs \<and> length cs = Suc n \<and> list_all alnum cs)"
    proof (rule post_mono [OF Suc.IH])
      fix s assume "\<exists>cs. s = (acc @ char_at chars i) @ cs \<and> length cs = n \<and> list_all alnum cs"
      then obtain cs where "s = acc @ (c # cs)" "length cs = n" "list_all alnum cs"
        by (auto simp: c(1))
      with c(2) have "s = acc @ (c # cs) \<and> length (c # cs) = Suc n \<and> list_all alnum (c # cs)"
        by simp
      then show "\<exists>cs. s = acc @ cs \<and> length cs = Suc n \<and> list_all alnum cs" by blast
    qed
  qed
  then show ?case by simp
qed

lemma length_chars: "int (length chars) - 1 = 35"
  by (simp add: chars_def)

lemma total_alphanumeric_loop: "total (alphanumeric_loop n acc)"
proof (induction n arbitrary: acc)
  case 0
  show ?case by (simp add: total_return)
next
  case (Suc n)
  have "total (getSecureRandomInt 0 35)"
    by (rule total_getSecureRandomInt) (simp_all add: bytesNeeded_0_35 maxValidValue_0_35)
  then show ?case by (simp add: length_chars total_bind Suc.IH)
qed

lemma post_generateRandomNumericString:
  "0 \<le> len \<Longrightarrow> post (generateRandomNumericString len)
     (\<lambda>s. int (length s) = len \<and> list_all isDigit s)"
proof -
  assume len: "0 \<le> len"
  show ?thesis
  proof (cases "len \<le> 0")
    case True
    with len show ?thesis by (simp add: generateRandomNumericString_def post_return)
  next
    case False
    have "post (numeric_loop (nat len) []) (\<lambda>s. int (length s) = len \<and> list_all isDigit s)"
      using len by (intro post_mono [OF post_numeric_loop]) auto
    with False show ?thesis by (simp add: generateRandomNumericString_def)
  qed
qed

lemma post_generateRandomAlphanumericString:
  "0 \<le> len \<Longrightarrow> post (generateRandomAlphanumericString len)
     (\<lambda>s. int (length s) = len \<and> list_all alnum s)"
proof -
  assume len: "0 \<le> len"
  show ?thesis
  proof (cases "len \<le> 0")
    case True
    with len show ?thesis by (simp add: generateRandomAlphanumericString_def post_return)
  next
    case False
    have "post (alphanumeric_loop (nat len) []) (\<lambda>s. int (length s) = len \<and> list_all alnum s)"
      using len by (intro post_mono [OF post_alphanumeric_loop]) auto
    with False show ?thesis by (simp add: generateRandomAlphanumericString_def)
  qed
qed

lemma total_generateRandomNumericString: "total (generateRandomNumericString len)"
  by (simp add: generateRandomNumericString_def total_return total_numeric_loop)

lemma total_generateRandomAlphanumericString: "total (generateRandomAlphanumericString len)"
  by (simp add: generateRandomAlphanumericString_def total_return total_alphanumeric_loop)

section \<open>The registry\<close>

lemma samples_length: "length (sampleBankCodes (countries c)) = 4"
  by (cases c) simp_all

lemma samples_nonempty: "sampleBankCodes (countries c) \<noteq> []"
  by (cases c) simp_all

lemma samples_shape:
  "s \<in> set (sampleBankCodes (countries c)) \<Longrightarrow>
   list_all alnum s \<and> int (length s) = bankCodeLength (countries c)"
  by (cases c) (auto simp: alnum_simps)

lemma lengths_sum:
  "4 + bankCodeLength (countries c) + accountNumberLength (countries c) = length' (countries c)"
  by (cases c) simp_all

lemma accountNumberLength_nonneg: "0 \<le> accountNumberLength (countries c)"
  by (cases c) simp_all

lemma length_key: "length (key c) = 2"
  by (cases c) simp_all

lemma key_alnum: "list_all alnum (key c)"
  by (cases c) (simp_all add: alnum_simps)

lemma toUpperCase_alnum: "list_all alnum s \<Longrightarrow> toUpperCase s = s"
  by (induction s) (simp_all add: toUpperCase_def toUpperCase_char_alnum)

lemma trim_key: "trim (key c) = key c"
  by (cases c) (simp_all add: trim_def isWhiteSpace_def charCodeAt0_def)

lemma normalize_key: "trim (toUpperCase (key c)) = key c"
  by (simp add: toUpperCase_alnum [OF key_alnum] trim_key)

lemma as_IBANCountryCode_key: "as_IBANCountryCode (key c) = Some c"
  by (cases c) (simp_all add: as_IBANCountryCode_def Object_keys_countries_def)

lemma isValidCountryCode_key: "isValidCountryCode (key c)"
  by (cases c) (simp_all add: isValidCountryCode_def Object_keys_countries_def)

lemma validateCountryCode_key: "validateCountryCode (key c) = Inr ()"
proof -
  have "key c \<noteq> []" using length_key [of c] by auto
  then show ?thesis
    by (simp add: validateCountryCode_def toUpperCase_alnum [OF key_alnum] isValidCountryCode_key)
qed

section \<open>The component generators\<close>

lemma getSecureRandomInt_0_3:
  "getSecureRandomInt 0 3 ent = Some (Inr (int (unat (shd ent) mod 4)), stl ent)"
proof -
  have le: "(0::int) \<le> 3" by simp
  have "int (unat (shd ent)) \<le> 255" using unat_byte_less [of "shd ent"] by linarith
  then have acc: "accepted 0 3 (draw (bytesNeeded 0 3) ent 0)"
    by (simp add: accepted_def bytesNeeded_0_3 maxValidValue_0_3 draw_0 reduce_bytes_single)
  have none: "\<forall>j<0. \<not> accepted 0 3 (draw (bytesNeeded 0 3) ent j)" by simp
  have res: "result_of 0 3 (draw (bytesNeeded 0 3) ent 0) = int (unat (shd ent) mod 4)"
    by (simp add: result_of_nat [OF le] bytesNeeded_0_3 draw_0 reduce_bytes_single)
  have rest: "sdrop (Suc 0 * bytesNeeded 0 3) ent = stl ent"
    by (simp add: bytesNeeded_0_3)
  show ?thesis
    using getSecureRandomInt_first_accepted [OF le acc none] by (simp only: res rest)
qed

lemma generateBankCode_sample:
  "generateBankCode c ent =
     Some (Inr (sampleBankCodes (countries c) ! (unat (shd ent) mod 4)), stl ent)"
proof -
  have "element_at (sampleBankCodes (countries c)) (int (unat (shd ent) mod 4)) =
        sampleBankCodes (countries c) ! (unat (shd ent) mod 4)"
    by (simp add: element_at_def samples_length)
  then show ?thesis
    by (simp add: generateBankCode_def Let_def samples_length samples_nonempty bind_def
        return_def getSecureRandomInt_0_3)
qed

lemma generateBankCode_shape:
  assumes "generateBankCode c ent = Some (r, ent')"
  shows "\<exists>bank. r = Inr bank \<and> bank \<in> set (sampleBankCodes (countries c)) \<and>
     list_all alnum bank \<and> int (length bank) = bankCodeLength (countries c) \<and> ent' = stl ent"
proof -
  let ?bank = "sampleBankCodes (countries c) ! (unat (shd ent) mod 4)"
  have "unat (shd ent) mod 4 < length (sampleBankCodes (countries c))"
    by (simp add: samples_length)
  then have m: "?bank \<in> set (sampleBankCodes (countries c))" by (rule nth_mem)
  from assms have "r = Inr ?bank" "ent' = stl ent"
    by (simp_all add: generateBankCode_sample)
  with m samples_shape [OF m] show ?thesis by blast
qed

lemma digits_alnum: "list_all isDigit s \<Longrightarrow> list_all alnum s"
  by (induction s) (simp_all add: alnum_def)

lemma post_generateAccountNumber:
  "post (generateAccountNumber c)
     (\<lambda>a. int (length a) = accountNumberLength (countries c) \<and> list_all alnum a)"
proof -
  have num: "post (generateRandomNumericString (accountNumberLength (countries c)))
     (\<lambda>a. int (length a) = accountNumberLength (countries c) \<and> list_all alnum a)"
    by (rule post_mono [OF post_generateRandomNumericString [OF accountNumberLength_nonneg]])
       (simp add: digits_alnum)
  have a12: "post (generateRandomAlphanumericString 12)
     (\<lambda>a. int (length a) = 12 \<and> list_all alnum a)"
    by (rule post_generateRandomAlphanumericString) simp
  have fr: "post (bind (generateRandomAlphanumericString 11) (\<lambda>a.
              bind (generateRandomNumericString 2) (\<lambda>b. return (a @ b))))
     (\<lambda>a. int (length a) = 13 \<and> list_all alnum a)"
  proof (rule post_bind)
    show "post (generateRandomAlphanumericString 11) (\<lambda>a. int (length a) = 11 \<and> list_all alnum a)"
      by (rule post_generateRandomAlphanumericString) simp
  next
    fix a :: string assume a: "int (length a) = 11 \<and> list_all alnum a"
    show "post (bind (generateRandomNumericString 2) (\<lambda>b. return (a @ b)))
            (\<lambda>a. int (length a) = 13 \<and> list_all alnum a)"
    proof (rule post_bind)
      show "post (generateRandomNumericString 2) (\<lambda>b. int (length b) = 2 \<and> list_all isDigit b)"
        by (rule post_generateRandomNumericString) simp
    next
      fix b :: string assume "int (length b) = 2 \<and> list_all isDigit b"
      with a show "post (return (a @ b)) (\<lambda>a. int (length a) = 13 \<and> list_all alnum a)"
        by (intro post_return) (simp add: digits_alnum)
    qed
  qed
  show ?thesis
    using num a12 fr by (cases c) (simp_all add: generateAccountNumber_def)
qed

lemma total_generateAccountNumber: "total (generateAccountNumber c)"
  by (cases c)
     (simp_all add: generateAccountNumber_def total_bind total_return
        total_generateRandomNumericString total_generateRandomAlphanumericString)

lemma fair_stl: "fair ent \<Longrightarrow> fair (stl ent)"
  using fair_sdrop [of ent 1] by simp

section \<open>The orchestrator\<close>

lemma validateGeneratedIBAN_ok:
  assumes "length cd = 2" and "list_all isDigit cd"
    and "int (length bank) = bankCodeLength (countries c)"
    and "int (length acct) = accountNumberLength (countries c)"
  shows "validateGeneratedIBAN (key c @ cd @ bank @ acct) c = Inr ()"
proof -
  have l: "int (length (key c @ cd @ bank @ acct)) = length' (countries c)"
    using assms lengths_sum [of c] by (simp add: length_key)
  have s: "startsWith (key c @ cd @ bank @ acct) (key c)"
    by (simp add: startsWith_def)
  have d: "substring (key c @ cd @ bank @ acct) 2 4 = cd"
    using assms(1) by (simp add: substring_def length_key)
  have t: "two_digits cd" using assms(1,2) by (simp add: two_digits_def)
  show ?thesis
    by (simp only: validateGeneratedIBAN_def Let_def l s d t not_True_eq_False if_False
        not_not refl if_True simp_thms)
qed

lemma generateIBAN_key_try:
  "generateIBAN (key c) w =
     (case generateIBAN_try (key c) w of
        None \<Rightarrow> None
      | Some (Inl e, w') \<Rightarrow> Some (Inl (rethrow (key c) e), w')
      | Some (Inr iban, w') \<Rightarrow> Some (Inr iban, w'))"
  unfolding generateIBAN_def Let_def normalize_key
  by (simp add: validateCountryCode_key)

lemma generateIBAN_try_key:
  "generateIBAN_try (key c) w =
     (case generateAccountNumber c (stl (entropy w)) of
        None \<Rightarrow> None
      | Some (Inl e, ent2) \<Rightarrow> Some (Inl e, w\<lparr>entropy := ent2\<rparr>)
      | Some (Inr accountNumber, ent2) \<Rightarrow>
         (case calculateCheckDigits (key c)
                 (sampleBankCodes (countries c) ! (unat (shd (entropy w)) mod 4)) accountNumber of
            Inl e \<Rightarrow> Some (Inl e, \<lparr>entropy = ent2, checksumCalls = checksumCalls w + 1\<rparr>)
          | Inr checkDigits \<Rightarrow>
             (case validateGeneratedIBAN
                     (key c @ checkDigits @
                      sampleBankCodes (countries c) ! (unat (shd (entropy w)) mod 4) @
                      accountNumber) c of
                Inl e \<Rightarrow> Some (Inl e, \<lparr>entropy = ent2, checksumCalls = checksumCalls w + 1\<rparr>)
              | Inr _ \<Rightarrow>
                  Some (Inr (key c @ checkDigits @
                             sampleBankCodes (countries c) ! (unat (shd (entropy w)) mod 4) @
                             accountNumber),
                        \<lparr>entropy = ent2, checksumCalls = checksumCalls w + 1\<rparr>))))"
  unfolding generateIBAN_try_def Let_def
  by (simp add: as_IBANCountryCode_key generateBankCode_sample)

lemma generateIBAN_diverges:
  "generateAccountNumber c (stl (entropy w)) = None \<Longrightarrow> generateIBAN (key c) w = None"
  by (simp add: generateIBAN_key_try generateIBAN_try_key)

text \<open>What one call of the orchestrator does once the account number has been drawn.\<close>

lemma generateIBAN_forward:
  assumes acct: "generateAccountNumber c (stl (entropy w)) = Some (Inr acct, ent2)"
  defines "bank \<equiv> sampleBankCodes (countries c) ! (unat (shd (entropy w)) mod 4)"
  shows "\<exists>cd. calculateCheckDigits (key c) bank acct = Inr cd \<and>
              length cd = 2 \<and> list_all isDigit cd \<and>
              list_all alnum (bank @ acct @ key c) \<and>
              validateGeneratedIBAN (key c @ cd @ bank @ acct) c = Inr () \<and>
              generateIBAN (key c) w =
                Some (Inr (key c @ cd @ bank @ acct),
                      \<lparr>entropy = ent2, checksumCalls = checksumCalls w + 1\<rparr>)"
proof -
  have gb: "generateBankCode c (entropy w) = Some (Inr bank, stl (entropy w))"
    unfolding bank_def by (rule generateBankCode_sample)
  from generateBankCode_shape [OF gb] have
    b: "list_all alnum bank" "int (length bank) = bankCodeLength (countries c)" by simp_all
  from postD [OF post_generateAccountNumber acct] have
    a: "list_all alnum acct" "int (length acct) = accountNumberLength (countries c)" by simp_all
  have al: "list_all alnum (bank @ acct @ key c)" using a(1) b(1) key_alnum by simp
  from check_digits_value(1) [OF al] obtain cd where
    cd: "calculateCheckDigits (key c) bank acct = Inr cd" by blast
  note s = check_digits_shape(1,2) [OF al cd]
  have v: "validateGeneratedIBAN (key c @ cd @ bank @ acct) c = Inr ()"
    using s b(2) a(2) by (rule validateGeneratedIBAN_ok)
  have "generateIBAN_try (key c) w =
          Some (Inr (key c @ cd @ bank @ acct),
                \<lparr>entropy = ent2, checksumCalls = checksumCalls w + 1\<rparr>)"
    by (simp add: generateIBAN_try_key acct bank_def [symmetric] cd v Let_def)
  then have "generateIBAN (key c) w =
          Some (Inr (key c @ cd @ bank @ acct),
                \<lparr>entropy = ent2, checksumCalls = checksumCalls w + 1\<rparr>)"
    by (simp add: generateIBAN_key_try)
  with cd s al v show ?thesis by blast
qed

lemma generateIBAN_key:
  assumes "generateIBAN (key c) w = Some (r, w')"
  shows "\<exists>bank acct cd.
           generateBankCode c (entropy w) = Some (Inr bank, stl (entropy w)) \<and>
           generateAccountNumber c (stl (entropy w)) = Some (Inr acct, entropy w') \<and>
           calculateCheckDigits (key c) bank acct = Inr cd \<and>
           length cd = 2 \<and> list_all isDigit cd \<and> list_all alnum (bank @ acct @ key c) \<and>
           validateGeneratedIBAN (key c @ cd @ bank @ acct) c = Inr () \<and>
           r = Inr (key c @ cd @ bank @ acct) \<and>
           checksumCalls w' = checksumCalls w + 1"
proof (cases "generateAccountNumber c (stl (entropy w))")
  case None
  from generateIBAN_diverges [OF this] assms show ?thesis by simp
next
  case (Some p)
  obtain ra ent2 where p: "p = (ra, ent2)" by (cases p)
  from postD [OF post_generateAccountNumber Some [unfolded p]] obtain acct where
    "ra = Inr acct" by blast
  with Some p have acct: "generateAccountNumber c (stl (entropy w)) = Some (Inr acct, ent2)"
    by simp
  from generateIBAN_forward [OF acct] obtain cd where
    cd: "calculateCheckDigits (key c) (sampleBankCodes (countries c) ! (unat (shd (entropy w)) mod 4)) acct = Inr cd"
      "length cd = 2" "list_all isDigit cd"
      "list_all alnum ((sampleBankCodes (countries c) ! (unat (shd (entropy w)) mod 4)) @ acct @ key c)"
      "validateGeneratedIBAN (key c @ cd @ (sampleBankCodes (countries c) ! (unat (shd (entropy w)) mod 4)) @ acct) c = Inr ()"
      "generateIBAN (key c) w =
         Some (Inr (key c @ cd @ (sampleBankCodes (countries c) ! (unat (shd (entropy w)) mod 4)) @ acct),
               \<lparr>entropy = ent2, checksumCalls = checksumCalls w + 1\<rparr>)"
    by blast
  from cd(6) assms have r: "r = Inr (key c @ cd @ (sampleBankCodes (countries c) ! (unat (shd (entropy w)) mod 4)) @ acct)"
    and w': "w' = \<lparr>entropy = ent2, checksumCalls = checksumCalls w + 1\<rparr>" by simp_all
  from w' acct have "generateAccountNumber c (stl (entropy w)) = Some (Inr acct, entropy w')"
    and "checksumCalls w' = checksumCalls w + 1" by simp_all
  with generateBankCode_sample [of c "entropy w"] cd(1-5) r show ?thesis by blast
qed

lemma generateIBAN_returns:
  assumes "fair (entropy w)"
  shows "\<exists>iban w'. generateIBAN (key c) w = Some (Inr iban, w')"
proof -
  from assms have "fair (stl (entropy w))" by (rule fair_stl)
  from totalD [OF total_generateAccountNumber this] obtain acct ent2 where
    "generateAccountNumber c (stl (entropy w)) = Some (Inr acct, ent2)" by blast
  from generateIBAN_forward [OF this] show ?thesis by blast
qed

lemma generated_mod97_valid:
  assumes "calculateCheckDigits (key c) bank acct = Inr cd"
    and "list_all alnum (bank @ acct @ key c)"
  shows "mod97_valid (key c @ cd @ bank @ acct)"
proof -
  note s = check_digits_shape(1,2) [OF assms(2,1)]
  have "list_all alnum (key c @ cd @ bank @ acct)"
    using assms(2) digits_alnum [OF s(2)] by simp
  moreover have "drop 4 (key c @ cd @ bank @ acct) @ take 4 (key c @ cd @ bank @ acct) =
                 bank @ acct @ key c @ cd"
    using s(1) by (simp add: length_key)
  ultimately show ?thesis
    using check_digits_mod97 [OF assms(2,1)] by (simp add: mod97_valid_def)
qed

lemma generated_validateIBAN:
  assumes "calculateCheckDigits (key c) bank acct = Inr cd" and "length cd = 2"
  shows "validateIBAN (key c @ cd @ bank @ acct)"
proof -
  have "take 2 (key c @ cd @ bank @ acct) = key c" by (simp add: length_key)
  moreover have "drop 4 (key c @ cd @ bank @ acct) = bank @ acct"
    using assms(2) by (simp add: length_key)
  moreover have "substring (key c @ cd @ bank @ acct) 2 4 = cd"
    using assms(2) by (simp add: substring_def length_key)
  ultimately show ?thesis
    by (simp only: validateIBAN_def calculateCheckDigits_concat assms(1))
qed

lemma generated_length:
  assumes "validateGeneratedIBAN iban c = Inr ()"
  shows "int (length iban) = length' (countries c)"
  using assms by (simp add: validateGeneratedIBAN_def Let_def split: if_splits)

lemma fair_sconst: "unat x \<le> 249 \<Longrightarrow> fair (sconst x)"
  by (auto simp: fair_def)

text \<open>One call evaluated on the source that delivers the byte 7 for ever.\<close>

lemma sevens_simps: "shd sevens = 7" "stl sevens = sevens" "sevens !! n = 7"
  "sdrop n sevens = sevens"
  by (simp_all add: sevens_def sdrop_sconst)

lemma fair_sevens: "fair sevens"
  by (simp add: fair_def sevens_simps) blast

lemma getSecureRandomInt_0_9_seven: "getSecureRandomInt 0 9 sevens = Some (Inr 7, sevens)"
proof -
  have le: "(0::int) \<le> 9" by simp
  have acc: "accepted 0 9 (draw (bytesNeeded 0 9) sevens 0)"
    by (simp add: accepted_def bytesNeeded_0_9 maxValidValue_0_9 draw_0 reduce_bytes_single
        sevens_simps)
  have none: "\<forall>j<0. \<not> accepted 0 9 (draw (bytesNeeded 0 9) sevens j)" by simp
  have res: "result_of 0 9 (draw (bytesNeeded 0 9) sevens 0) = 7"
    by (simp add: result_of_nat [OF le] bytesNeeded_0_9 draw_0 reduce_bytes_single sevens_simps)
  have rest: "sdrop (Suc 0 * bytesNeeded 0 9) sevens = sevens"
    by (simp only: sevens_simps)
  show ?thesis
    using getSecureRandomInt_first_accepted [OF le acc none] by (simp only: res rest)
qed

lemma toString_7: "toString 7 = ''7''"
  by (simp add: toString_def digits_of_nat.simps fromCharCode_def char_of_def bit_Suc_0_iff)

lemma numeric_loop_sevens:
  "numeric_loop n acc sevens = Some (Inr (acc @ replicate n (CHR ''7'')), sevens)"
proof (induction n arbitrary: acc)
  case 0
  show ?case by (simp add: return_def)
next
  case (Suc n)
  show ?case
    by (simp add: bind_def getSecureRandomInt_0_9_seven toString_7 Suc.IH replicate_app_Cons_same)
qed

lemma generateAccountNumber_NL_sevens:
  "generateAccountNumber NL sevens = Some (Inr ''7777777777'', sevens)"
proof -
  have "numeric_loop 10 [] sevens = Some (Inr (replicate 10 (CHR ''7'')), sevens)"
    by (simp only: numeric_loop_sevens append_Nil)
  moreover have "replicate 10 (CHR ''7'') = ''7777777777''"
    by (simp add: eval_nat_numeral)
  ultimately show ?thesis
    by (simp add: generateAccountNumber_def generateRandomNumericString_def
        del: numeric_loop.simps)
qed

lemma check_digits_NL_TRIO: "calculateCheckDigits ''NL'' ''TRIO'' ''7777777777'' = Inr ''18''"
  by (simp add: calculateCheckDigits_def charToNumber_def toUpperCase_char_def isLower_def
      charCodeAt0_def toString_def digits_of_nat.simps fromCharCode_def decimal_value_def
      js_rem_def padStart_def char_of_def bit_Suc_0_iff)

lemma generateIBAN_NL_sevens:
  "generateIBAN ''NL'' \<lparr>entropy = sevens, checksumCalls = 0\<rparr> =
     Some (Inr ''NL18TRIO7777777777'', \<lparr>entropy = sevens, checksumCalls = 1\<rparr>)"
proof -
  have "generateAccountNumber NL (stl (entropy \<lparr>entropy = sevens, checksumCalls = 0\<rparr>)) =
        Some (Inr ''7777777777'', sevens)"
    by (simp add: generateAccountNumber_NL_sevens sevens_simps)
  from generateIBAN_forward [OF this] show ?thesis
    by (simp add: check_digits_NL_TRIO sevens_simps)
qed

section \<open>Normalisation of the country code\<close>

lemma toUpperCase_char_not_lower: "\<not> isLower (toUpperCase_char c)"
proof (cases "isLower c")
  case True
  then have l: "97 \<le> charCodeAt0 c" "charCodeAt0 c \<le> 122" by (simp_all add: isLower_def)
  then have "charCodeAt0 c - 32 < 256" and "charCodeAt0 c - 32 < 97"
    by linarith+
  then have "charCodeAt0 (fromCharCode (charCodeAt0 c - 32)) < 97"
    by (simp add: charCodeAt0_fromCharCode)
  with True show ?thesis by (simp add: toUpperCase_char_def isLower_def)
next
  case False
  then show ?thesis by (simp add: toUpperCase_char_def)
qed

lemma toUpperCase_char_idem: "toUpperCase_char (toUpperCase_char c) = toUpperCase_char c"
  using toUpperCase_char_not_lower [of c] by (simp add: toUpperCase_char_def [of "toUpperCase_char c"])

lemma toUpperCase_idem: "toUpperCase (toUpperCase s) = toUpperCase s"
  by (simp add: toUpperCase_def toUpperCase_char_idem)

lemma isWhiteSpace_toUpperCase_char: "isWhiteSpace (toUpperCase_char c) = isWhiteSpace c"
proof (cases "isLower c")
  case True
  then have l: "97 \<le> charCodeAt0 c" "charCodeAt0 c \<le> 122" by (simp_all add: isLower_def)
  then have "charCodeAt0 c - 32 < 256" and u: "65 \<le> charCodeAt0 c - 32" by linarith+
  then have "charCodeAt0 (fromCharCode (charCodeAt0 c - 32)) = charCodeAt0 c - 32"
    by (intro charCodeAt0_fromCharCode)
  with True l u show ?thesis by (simp add: toUpperCase_char_def isWhiteSpace_def)
next
  case False
  then show ?thesis by (simp add: toUpperCase_char_def)
qed

lemma toUpperCase_dropWhile:
  "toUpperCase (dropWhile isWhiteSpace s) = dropWhile isWhiteSpace (toUpperCase s)"
proof -
  have "isWhiteSpace \<circ> toUpperCase_char = isWhiteSpace"
    by (rule ext) (simp add: isWhiteSpace_toUpperCase_char)
  then show ?thesis by (simp add: toUpperCase_def dropWhile_map)
qed

lemma toUpperCase_rev: "toUpperCase (rev s) = rev (toUpperCase s)"
  by (simp add: toUpperCase_def rev_map)

lemma toUpperCase_trim: "toUpperCase (trim s) = trim (toUpperCase s)"
  by (simp only: trim_def toUpperCase_rev toUpperCase_dropWhile)



lemma toUpperCase_normalized: "toUpperCase (trim (toUpperCase s)) = trim (toUpperCase s)"
  by (simp only: toUpperCase_trim toUpperCase_idem)


text \<open>No upper-cased string is the name of a property inherited from \<open>Object.prototype\<close>.\<close>

lemma normalized_no_lower: "c \<in> set (trim (toUpperCase s)) \<Longrightarrow> \<not> isLower c"
proof -
  assume "c \<in> set (trim (toUpperCase s))"
  then have "c \<in> set (toUpperCase s)"
    by (auto simp: trim_def dest!: set_dropWhileD)
  then show ?thesis by (auto simp: toUpperCase_def toUpperCase_char_not_lower)
qed

lemma prototype_names_lower: "p \<in> set Object_prototype_names \<Longrightarrow> \<exists>c \<in> set p. isLower c"
proof -
  have l: "isLower (CHR ''o'')" "isLower (CHR ''a'')" "isLower (CHR ''s'')"
    "isLower (CHR ''r'')" "isLower (CHR ''p'')" "isLower (CHR ''d'')" "isLower (CHR ''l'')"
    by (simp_all add: isLower_def charCodeAt0_def)
  assume "p \<in> set Object_prototype_names"
  then show ?thesis using l by (auto simp: Object_prototype_names_def)
qed

lemma normalized_not_inherited: "trim (toUpperCase s) \<notin> set Object_prototype_names"
  using prototype_names_lower normalized_no_lower by blast





text \<open>A code that has passed the validation is a key of the table.\<close>

lemma validated_is_key:
  assumes "validateCountryCode (trim (toUpperCase s)) = Inr ()"
  shows "\<exists>c. as_IBANCountryCode (trim (toUpperCase s)) = Some c \<and> key c = trim (toUpperCase s)"
proof -
  from assms have "isValidCountryCode (toUpperCase (trim (toUpperCase s)))"
    by (simp add: validateCountryCode_def split: if_splits)
  then have "isValidCountryCode (trim (toUpperCase s))"
    by (simp only: toUpperCase_normalized)
  then have "trim (toUpperCase s) \<in> set (map key Object_keys_countries)"
    using normalized_not_inherited [of s] by (simp add: isValidCountryCode_def)
  then obtain c where "key c = trim (toUpperCase s)" by auto
  with as_IBANCountryCode_key [of c] show ?thesis by auto
qed




section \<open>The claims about the checksum engine\<close>

text \<open>
  C2 (as amended). For the country code \<open>NL\<close>, the bank code \<open>ABNA\<close> and the account
  number \<open>0417164300\<close>, \<open>calculateCheckDigits\<close> returns the string \<open>91\<close>.
\<close>

theorem calculateCheckDigits_reference_example:
  "calculateCheckDigits ''NL'' ''ABNA'' ''0417164300'' = Inr ''91''"
  by (rule check_digits_NL_ABNA)

text \<open>C2 as stated fails: the check digits of this reference example are not \<open>77\<close>.\<close>

theorem calculateCheckDigits_reference_not_77:
  "calculateCheckDigits ''NL'' ''ABNA'' ''0417164300'' \<noteq> Inr ''77''"
  by (simp add: check_digits_NL_ABNA)

text \<open>
  C4. For a country code, a bank code and an account number over the alphabet \<open>[0-9A-Z]\<close>,
  \<open>calculateCheckDigits\<close> returns a string of exactly two decimal digits whose value lies
  between 2 and 98; it is never \<open>00\<close>, and a value below 10 has a leading zero.
\<close>

theorem calculateCheckDigits_range:
  assumes "list_all alnum countryCode" and "list_all alnum bankCode"
    and "list_all alnum accountNumber"
  shows "\<exists>cd. calculateCheckDigits countryCode bankCode accountNumber = Inr cd \<and>
              length cd = 2 \<and> list_all isDigit cd \<and>
              2 \<le> decimal_value cd \<and> decimal_value cd \<le> 98 \<and> cd \<noteq> ''00'' \<and>
              (decimal_value cd < 10 \<longrightarrow> hd cd = CHR ''0'')"
proof -
  let ?v = "98 - (decimal_value (transliterate (bankCode @ accountNumber @ countryCode)) * 100) mod 97"
  let ?cd = "padStart 2 (CHR ''0'') (toString ?v)"
  have a: "list_all alnum (bankCode @ accountNumber @ countryCode)"
    using assms by simp
  have r: "calculateCheckDigits countryCode bankCode accountNumber = Inr ?cd"
    using a by (rule check_digits_value(1))
  note s = check_digits_shape [OF a r]
  have v: "0 \<le> ?v" "?v < 100" using check_digits_value(2,3) [OF a] by simp_all
  have ne: "?cd \<noteq> ''00''"
  proof
    assume "?cd = ''00''"
    then have "decimal_value ?cd = 0" by (simp only: decimal_value_00)
    with s(3) show False by simp
  qed
  have lead: "hd ?cd = CHR ''0''" if "decimal_value ?cd < 10"
  proof -
    from that s(5) have "nat ?v div 10 = 0" by simp
    then show ?thesis by (simp only: pad2 [OF v] list.sel) (simp add: fromCharCode_48)
  qed
  from r s(1-4) ne lead show ?thesis by blast
qed

text \<open>The hypotheses of C4 hold for a probe whose check digits are below 10.\<close>

theorem calculateCheckDigits_range_witness:
  "list_all alnum ''NL'' \<and> list_all alnum ''ABNA'' \<and> list_all alnum ''0000000003'' \<and>
   (\<exists>cd. calculateCheckDigits ''NL'' ''ABNA'' ''0000000003'' = Inr cd \<and>
         length cd = 2 \<and> decimal_value cd < 10 \<and> hd cd = CHR ''0'')"
proof -
  have h: "list_all alnum ''NL''" "list_all alnum ''ABNA''" "list_all alnum ''0000000003''"
    by (simp_all add: alnum_simps)
  from calculateCheckDigits_range [OF h] obtain cd where
    cd: "calculateCheckDigits ''NL'' ''ABNA'' ''0000000003'' = Inr cd" "length cd = 2"
      "decimal_value cd < 10 \<longrightarrow> hd cd = CHR ''0''"
    by blast
  from cd(1) have "cd = ''04''" by (simp add: check_digits_NL_ABNA_3)
  then have "decimal_value cd < 10" by (simp add: decimal_value_def charCodeAt0_def)
  with cd h show ?thesis by blast
qed

text \<open>
  C10. For a country code, a bank code and an account number over the alphabet
  \<open>[0-9A-Z]\<close>, the earlier implementation of \<open>calculateCheckDigits\<close> returns the same
  string as the current one, whatever \<open>BigInt\<close> does outside the decimal numerals.
\<close>

theorem legacy_calculateCheckDigits_agrees:
  assumes "list_all alnum countryCode" and "list_all alnum bankCode"
    and "list_all alnum accountNumber"
  shows "legacy_calculateCheckDigits other countryCode bankCode accountNumber =
         calculateCheckDigits countryCode bankCode accountNumber"
proof -
  have a: "list_all alnum (bankCode @ accountNumber @ countryCode)"
    using assms by simp
  show ?thesis
    by (simp only: legacy_calculateCheckDigits_alnum [OF a] calculateCheckDigits_alnum [OF a])
qed

text \<open>The hypotheses of C10 hold for the reference example, where both return \<open>91\<close>.\<close>

theorem legacy_calculateCheckDigits_agrees_witness:
  "list_all alnum ''NL'' \<and> list_all alnum ''ABNA'' \<and> list_all alnum ''0417164300'' \<and>
   legacy_calculateCheckDigits (\<lambda>s. Inl (Error ''SyntaxError'')) ''NL'' ''ABNA'' ''0417164300''
     = Inr ''91''"
proof -
  have h: "list_all alnum ''NL''" "list_all alnum ''ABNA''" "list_all alnum ''0417164300''"
    by (simp_all add: alnum_simps)
  from legacy_calculateCheckDigits_agrees [OF h] h show ?thesis
    by (simp add: check_digits_NL_ABNA)
qed

section \<open>The claim about the secure random integer\<close>



section \<open>The claims about generated IBANs\<close>

text \<open>
  C1. For every supported country code and every entropy source, a string returned by
  \<open>generateIBAN\<close> passes the mod-97 test (rearranged, transliterated and read as a decimal
  numeral it leaves the remainder 1) and is accepted by \<open>validateIBAN\<close>; on a fair source
  \<open>generateIBAN\<close> does return such a string.
\<close>

theorem generateIBAN_mod97_valid:
  "(\<forall>iban w'. generateIBAN (key c) w = Some (Inr iban, w') \<longrightarrow>
       mod97_valid iban \<and> validateIBAN iban) \<and>
   (fair (entropy w) \<longrightarrow>
       (\<exists>iban w'. generateIBAN (key c) w = Some (Inr iban, w') \<and>
          mod97_valid iban \<and> validateIBAN iban))"
proof -
  have valid: "mod97_valid iban \<and> validateIBAN iban"
    if "generateIBAN (key c) w = Some (Inr iban, w')" for iban w'
  proof -
    from generateIBAN_key [OF that] obtain bank acct cd where
      "calculateCheckDigits (key c) bank acct = Inr cd" "length cd = 2"
      "list_all alnum (bank @ acct @ key c)" "iban = key c @ cd @ bank @ acct"
      by blast
    then show ?thesis by (simp only: generated_mod97_valid generated_validateIBAN)
  qed
  moreover have "\<exists>iban w'. generateIBAN (key c) w = Some (Inr iban, w') \<and>
          mod97_valid iban \<and> validateIBAN iban" if "fair (entropy w)"
    using generateIBAN_returns [OF that, of c] valid by blast
  ultimately show ?thesis by blast
qed

text \<open>C1 at a concrete call: the IBAN generated for \<open>NL\<close> from the bytes 7, 7, ... is valid.\<close>

theorem generateIBAN_mod97_valid_witness:
  "generateIBAN (key NL) \<lparr>entropy = sevens, checksumCalls = 0\<rparr> =
     Some (Inr ''NL18TRIO7777777777'', \<lparr>entropy = sevens, checksumCalls = 1\<rparr>) \<and>
   fair (entropy \<lparr>entropy = sevens, checksumCalls = 0\<rparr>) \<and>
   mod97_valid ''NL18TRIO7777777777'' \<and> validateIBAN ''NL18TRIO7777777777''"
proof -
  have g: "generateIBAN (key NL) \<lparr>entropy = sevens, checksumCalls = 0\<rparr> =
     Some (Inr ''NL18TRIO7777777777'', \<lparr>entropy = sevens, checksumCalls = 1\<rparr>)"
    using generateIBAN_NL_sevens by simp
  have f: "fair (entropy \<lparr>entropy = sevens, checksumCalls = 0\<rparr>)"
    by (simp add: fair_sevens)
  from generateIBAN_mod97_valid [of NL "\<lparr>entropy = sevens, checksumCalls = 0\<rparr>"] g
  have "mod97_valid ''NL18TRIO7777777777'' \<and> validateIBAN ''NL18TRIO7777777777''"
    by blast
  with g f show ?thesis by blast
qed

text \<open>
  C3. For every supported country code and every entropy source, the length of a string
  returned by \<open>generateIBAN\<close> is the \<open>length\<close> that the registry records for the country; on
  a fair source \<open>generateIBAN\<close> does return such a string.
\<close>

theorem generateIBAN_length:
  "(\<forall>iban w'. generateIBAN (key c) w = Some (Inr iban, w') \<longrightarrow>
       int (length iban) = length' (countries c)) \<and>
   (fair (entropy w) \<longrightarrow>
       (\<exists>iban w'. generateIBAN (key c) w = Some (Inr iban, w') \<and>
          int (length iban) = length' (countries c)))"
proof -
  have len: "int (length iban) = length' (countries c)"
    if "generateIBAN (key c) w = Some (Inr iban, w')" for iban w'
  proof -
    from generateIBAN_key [OF that] obtain bank acct cd where
      "validateGeneratedIBAN (key c @ cd @ bank @ acct) c = Inr ()"
      "iban = key c @ cd @ bank @ acct"
      by blast
    then show ?thesis by (simp only: generated_length)
  qed
  moreover have "\<exists>iban w'. generateIBAN (key c) w = Some (Inr iban, w') \<and>
          int (length iban) = length' (countries c)" if "fair (entropy w)"
    using generateIBAN_returns [OF that, of c] len by blast
  ultimately show ?thesis by blast
qed

text \<open>C3 at a concrete call: the IBAN generated for \<open>NL\<close> has the 18 characters of the registry.\<close>

theorem generateIBAN_length_witness:
  "generateIBAN (key NL) \<lparr>entropy = sevens, checksumCalls = 0\<rparr> =
     Some (Inr ''NL18TRIO7777777777'', \<lparr>entropy = sevens, checksumCalls = 1\<rparr>) \<and>
   fair (entropy \<lparr>entropy = sevens, checksumCalls = 0\<rparr>) \<and>
   int (length ''NL18TRIO7777777777'') = length' (countries NL)"
proof -
  have g: "generateIBAN (key NL) \<lparr>entropy = sevens, checksumCalls = 0\<rparr> =
     Some (Inr ''NL18TRIO7777777777'', \<lparr>entropy = sevens, checksumCalls = 1\<rparr>)"
    using generateIBAN_NL_sevens by simp
  have f: "fair (entropy \<lparr>entropy = sevens, checksumCalls = 0\<rparr>)"
    by (simp add: fair_sevens)
  from generateIBAN_length [of NL "\<lparr>entropy = sevens, checksumCalls = 0\<rparr>"] g
  have "int (length ''NL18TRIO7777777777'') = length' (countries NL)"
    by blast
  with g f show ?thesis by blast
qed

text \<open>
  C7. For every supported country code and every entropy source, \<open>generateIBAN\<close> never
  returns an error: for the components it has generated the check digits are computed
  and the self-verification \<open>validateGeneratedIBAN\<close> of the assembled string passes; on
  a fair source \<open>generateIBAN\<close> returns a string.
\<close>

theorem generateIBAN_never_faults:
  "(\<forall>e w'. generateIBAN (key c) w \<noteq> Some (Inl e, w')) \<and>
   (\<forall>bankCode accountNumber ent1 ent2.
       generateBankCode c (entropy w) = Some (Inr bankCode, ent1) \<and>
       generateAccountNumber c ent1 = Some (Inr accountNumber, ent2) \<longrightarrow>
       (\<exists>checkDigits.
           calculateCheckDigits (key c) bankCode accountNumber = Inr checkDigits \<and>
           validateGeneratedIBAN (key c @ checkDigits @ bankCode @ accountNumber) c = Inr ())) \<and>
   (fair (entropy w) \<longrightarrow> (\<exists>iban w'. generateIBAN (key c) w = Some (Inr iban, w')))"
proof (intro conjI allI impI)
  fix e w'
  show "generateIBAN (key c) w \<noteq> Some (Inl e, w')"
  proof
    assume "generateIBAN (key c) w = Some (Inl e, w')"
    from generateIBAN_key [OF this] show False by blast
  qed
next
  fix bankCode accountNumber ent1 ent2
  assume a: "generateBankCode c (entropy w) = Some (Inr bankCode, ent1) \<and>
       generateAccountNumber c ent1 = Some (Inr accountNumber, ent2)"
  then have b: "bankCode = sampleBankCodes (countries c) ! (unat (shd (entropy w)) mod 4)"
    and e: "ent1 = stl (entropy w)"
    by (simp_all add: generateBankCode_sample)
  from a e have "generateAccountNumber c (stl (entropy w)) = Some (Inr accountNumber, ent2)"
    by simp
  from generateIBAN_forward [OF this] b
  show "\<exists>checkDigits.
           calculateCheckDigits (key c) bankCode accountNumber = Inr checkDigits \<and>
           validateGeneratedIBAN (key c @ checkDigits @ bankCode @ accountNumber) c = Inr ()"
    by blast
next
  assume "fair (entropy w)"
  then show "\<exists>iban w'. generateIBAN (key c) w = Some (Inr iban, w')"
    by (rule generateIBAN_returns)
qed

text \<open>C7 at a concrete call: the components generated for \<open>NL\<close> pass the self-verification.\<close>

theorem generateIBAN_never_faults_witness:
  "generateBankCode NL sevens = Some (Inr ''TRIO'', sevens) \<and>
   generateAccountNumber NL sevens = Some (Inr ''7777777777'', sevens) \<and>
   fair (entropy \<lparr>entropy = sevens, checksumCalls = 0\<rparr>) \<and>
   (\<exists>checkDigits.
       calculateCheckDigits (key NL) ''TRIO'' ''7777777777'' = Inr checkDigits \<and>
       validateGeneratedIBAN (key NL @ checkDigits @ ''TRIO'' @ ''7777777777'') NL = Inr ())"
proof -
  have b: "generateBankCode NL sevens = Some (Inr ''TRIO'', sevens)"
    by (simp add: generateBankCode_sample sevens_simps)
  have a: "generateAccountNumber NL sevens = Some (Inr ''7777777777'', sevens)"
    by (rule generateAccountNumber_NL_sevens)
  have f: "fair (entropy \<lparr>entropy = sevens, checksumCalls = 0\<rparr>)"
    by (simp add: fair_sevens)
  have "generateBankCode NL (entropy \<lparr>entropy = sevens, checksumCalls = 0\<rparr>) =
          Some (Inr ''TRIO'', sevens) \<and>
        generateAccountNumber NL sevens = Some (Inr ''7777777777'', sevens)"
    using a b by simp
  with generateIBAN_never_faults [of NL "\<lparr>entropy = sevens, checksumCalls = 0\<rparr>"]
  have "\<exists>checkDigits.
       calculateCheckDigits (key NL) ''TRIO'' ''7777777777'' = Inr checkDigits \<and>
       validateGeneratedIBAN (key NL @ checkDigits @ ''TRIO'' @ ''7777777777'') NL = Inr ()"
    by blast
  with a b f show ?thesis by blast
qed




section \<open>The claims about the input of the orchestrator\<close>






end
